theory Spec2Isabelle
  imports Main "HOL-Library.Monad_Syntax"
begin

section \<open>Data model\<close>

text \<open>
  The routine works on column-major storage addressed through raw pointers.  A pointer
  is an \<open>int\<close> index into a store, a store is a total function from indices to
  elements.  The operands \<open>A\<close> and \<open>B\<close> are \<open>const\<close>: each is read from a store
  of its own that no call changes (the same store may be passed for both).  The result
  \<open>C\<close> lives in the one mutable store of the machine state, so the quadrant pointers
  \<open>C_TL\<close>, \<open>C_TR\<close>, \<open>C_BL\<close>, \<open>C_BR\<close> of the recursion all point into the same
  storage.  Pointer arithmetic is exact.  The dimensions and leading dimensions are of
  the C type \<open>int\<close>, and the kernels form every index product in that type before
  they add it to a pointer (see \<open>imul\<close> below).  The elements are the values of any
  semiring, that is, arithmetic is exact.
\<close>

type_synonym 'a mem = "int \<Rightarrow> 'a"

text \<open>
  Every call that leaves the file is recorded, with its arguments, in the order in which
  it is made: the diagnostic routine, the native triangular multiply, the dense
  matrix-matrix multiply and the matrix-vector multiply.
\<close>

datatype 'a call =
    Xerbla string int
  | Dgemmt char char char int int 'a int int int int 'a int int
  | Dgemm char char int int int 'a int int int int 'a int int
  | Dgemv char int int 'a int int int int 'a int int

record 'a machine =
  Cmem :: "'a mem"
  calls :: "'a call list"

text \<open>
  The compile-time configuration of \<open>relapack.h\<close> and \<open>config.h\<close>, which are not
  part of the sources at hand, is a parameter: the flag \<open>HAVE_XGEMMT\<close>, the recursion
  threshold \<open>CROSSOVER_DGEMMT\<close>, the splitting policy \<open>DREC_SPLIT\<close>, and the effect
  on the store of \<open>C\<close> of the native routine \<open>BLAS(dgemmt)\<close> that the flag selects.
  The macro \<open>MAX\<close> is \<^const>\<open>max\<close>.
\<close>

record 'a relapack_config =
  HAVE_XGEMMT :: bool
  CROSSOVER_DGEMMT :: int
  DREC_SPLIT :: "int \<Rightarrow> int"
  BLAS_dgemmt :: "char \<Rightarrow> char \<Rightarrow> char \<Rightarrow> int \<Rightarrow> int \<Rightarrow> 'a \<Rightarrow> 'a mem \<Rightarrow> int \<Rightarrow> int \<Rightarrow>
    'a mem \<Rightarrow> int \<Rightarrow> int \<Rightarrow> 'a \<Rightarrow> int \<Rightarrow> int \<Rightarrow> 'a mem \<Rightarrow> 'a mem"

section \<open>The external collaborators\<close>

text \<open>
  Modelled from the spec: \<open>LAPACK(lsame)\<close>, the case-insensitive comparison of two
  selector characters, is not part of the sources at hand.  A lower-case ASCII letter is
  the same as its upper-case form.
\<close>

definition upcase :: "char \<Rightarrow> char" where
  "upcase c = (if 97 \<le> (of_char c :: nat) \<and> (of_char c :: nat) \<le> 122
               then char_of ((of_char c :: nat) - 32) else c)"

definition lsame :: "char \<Rightarrow> char \<Rightarrow> bool" where
  "lsame ca cb = (ca = cb \<or> upcase ca = upcase cb)"

text \<open>
  Modelled from the spec: \<open>LAPACK(xerbla)\<close>, the diagnostic routine, is not part of
  the sources at hand.  It receives the name of the routine and the index of the
  offending parameter and returns to its caller; it does not touch \<open>C\<close>.
\<close>

definition xerbla :: "string \<Rightarrow> int \<Rightarrow> 'a machine \<Rightarrow> 'a machine" where
  "xerbla name info s = s\<lparr>calls := calls s @ [Xerbla name info]\<rparr>"

text \<open>
  \<open>el tr M X ld i j\<close> is the element in row \<open>i\<close> and column \<open>j\<close> of \<open>op(X)\<close>
  for the matrix stored column by column at \<open>X\<close> with leading dimension \<open>ld\<close>:
  the matrix itself for \<open>'N'\<close>, its transpose otherwise.
\<close>

definition el :: "char \<Rightarrow> 'a mem \<Rightarrow> int \<Rightarrow> int \<Rightarrow> int \<Rightarrow> int \<Rightarrow> 'a" where
  "el tr M X ld i j = M (X + (if tr = CHR ''N'' then i + j * ld else j + i * ld))"

text \<open>
  Modelled from the spec: \<open>BLAS(dgemm)\<close>, the dense matrix-matrix multiply
  \<open>C := alpha * op(A) * op(B) + beta * C\<close> on an \<open>m\<close> by \<open>n\<close> block of \<open>C\<close> with
  inner dimension \<open>k\<close>, is not part of the sources at hand.  It writes every element of
  the block, column by column, and nothing else; for \<open>k = 0\<close> the sum is empty and the
  block is scaled by \<open>beta\<close>.
\<close>

definition dgemm_writes :: "int \<Rightarrow> int \<Rightarrow> int \<Rightarrow> int \<Rightarrow> int list" where
  "dgemm_writes m n C ldC = concat (map (\<lambda>j. map (\<lambda>i. C + i + j * ldC) [0..m - 1]) [0..n - 1])"

definition dgemm :: "char \<Rightarrow> char \<Rightarrow> int \<Rightarrow> int \<Rightarrow> int \<Rightarrow> ('a::semiring_0) \<Rightarrow> 'a mem \<Rightarrow> int \<Rightarrow> int \<Rightarrow>
    'a mem \<Rightarrow> int \<Rightarrow> int \<Rightarrow> 'a \<Rightarrow> int \<Rightarrow> int \<Rightarrow> 'a machine \<Rightarrow> 'a machine" where
  "dgemm transA transB m n k alpha Am A ldA Bm B ldB beta C ldC s =
     s\<lparr>Cmem := fold (\<lambda>j. fold (\<lambda>i h. h(C + i + j * ldC :=
                   alpha * (\<Sum>l\<leftarrow>[0..k - 1]. el transA Am A ldA i l * el transB Bm B ldB l j)
                   + beta * h (C + i + j * ldC))) [0..m - 1]) [0..n - 1] (Cmem s),
       calls := calls s @ [Dgemm transA transB m n k alpha A ldA B ldB beta C ldC]\<rparr>"

text \<open>
  Modelled from the spec: \<open>BLAS(dgemv)\<close>, the matrix-vector multiply
  \<open>y := alpha * op(A) * x + beta * y\<close> for the \<open>m\<close> by \<open>n\<close> matrix \<open>A\<close>, is not
  part of the sources at hand.  The vector \<open>x\<close> is read with stride \<open>incx\<close>, the
  vector \<open>y\<close> is written with stride \<open>incy\<close>; \<open>y\<close> has \<open>m\<close> elements for \<open>'N'\<close>
  and \<open>n\<close> elements otherwise.  As the spec has it, an empty sum leaves \<open>beta * y\<close>.
\<close>

definition dgemv_writes :: "char \<Rightarrow> int \<Rightarrow> int \<Rightarrow> int \<Rightarrow> int \<Rightarrow> int list" where
  "dgemv_writes tr m n y incy =
     map (\<lambda>i. y + i * incy) [0..(if tr = CHR ''N'' then m else n) - 1]"

definition dgemv :: "char \<Rightarrow> int \<Rightarrow> int \<Rightarrow> ('a::semiring_0) \<Rightarrow> 'a mem \<Rightarrow> int \<Rightarrow> int \<Rightarrow>
    'a mem \<Rightarrow> int \<Rightarrow> int \<Rightarrow> 'a \<Rightarrow> int \<Rightarrow> int \<Rightarrow> 'a machine \<Rightarrow> 'a machine" where
  "dgemv tr m n alpha Am A ldA Xm x incx beta y incy s =
     s\<lparr>Cmem :=
         (if tr = CHR ''N''
          then fold (\<lambda>i h. h(y + i * incy :=
                   alpha * (\<Sum>j\<leftarrow>[0..n - 1]. Am (A + i + j * ldA) * Xm (x + j * incx))
                   + beta * h (y + i * incy))) [0..m - 1] (Cmem s)
          else fold (\<lambda>j h. h(y + j * incy :=
                   alpha * (\<Sum>i\<leftarrow>[0..m - 1]. Am (A + i + j * ldA) * Xm (x + i * incx))
                   + beta * h (y + j * incy))) [0..n - 1] (Cmem s)),
       calls := calls s @ [Dgemv tr m n alpha A ldA x incx beta y incy]\<rparr>"

text \<open>The storage a recorded call writes: none for the diagnostic routine, and none
  that this model knows of for the native routine, whose effect is a parameter.\<close>

fun call_writes :: "'a call \<Rightarrow> int list" where
  "call_writes (Xerbla name info) = []"
| "call_writes (Dgemmt uplo transA transB n k alpha A ldA B ldB beta C ldC) = []"
| "call_writes (Dgemm transA transB m n k alpha A ldA B ldB beta C ldC) = dgemm_writes m n C ldC"
| "call_writes (Dgemv tr m n alpha A ldA x incx beta y incy) = dgemv_writes tr m n y incy"

fun call_scalars :: "'a call \<Rightarrow> ('a \<times> 'a) option" where
  "call_scalars (Xerbla name info) = None"
| "call_scalars (Dgemmt uplo transA transB n k alpha A ldA B ldB beta C ldC) = Some (alpha, beta)"
| "call_scalars (Dgemm transA transB m n k alpha A ldA B ldB beta C ldC) = Some (alpha, beta)"
| "call_scalars (Dgemv tr m n alpha A ldA x incx beta y incy) = Some (alpha, beta)"

fun is_dense :: "'a call \<Rightarrow> bool" where
  "is_dense (Dgemm transA transB m n k alpha A ldA B ldB beta C ldC) = True"
| "is_dense (Dgemv tr m n alpha A ldA x incx beta y incy) = True"
| "is_dense c = False"

section \<open>The program\<close>

subsection \<open>Index products\<close>

text \<open>
  The products \<open>*ldA * i\<close>, \<open>*ldB * i\<close>, \<open>*ldC * i\<close> of the unblocked kernel and
  \<open>*ldA * n1\<close>, \<open>*ldB * n1\<close>, \<open>*ldC * n1\<close> of the recursive kernel are products
  of two \<open>int\<close>s, 32 bits wide.  A product that does not fit overflows; the model gives
  it the two's complement value that the machine leaves, \<open>c_int\<close> of the exact
  product.
\<close>

definition c_int :: "int \<Rightarrow> int" where
  "c_int x = (x + 2147483648) mod 4294967296 - 2147483648"

definition imul :: "int \<Rightarrow> int \<Rightarrow> int" where
  "imul a b = c_int (a * b)"

subsection \<open>The unblocked kernel\<close>

text \<open>One pass of the loop of \<open>RELAPACK_dgemmt_rec2\<close>, for the index \<open>i\<close>.\<close>

definition rec2_step :: "char \<Rightarrow> char \<Rightarrow> char \<Rightarrow> int \<Rightarrow> int \<Rightarrow> ('a::semiring_0) \<Rightarrow> 'a mem \<Rightarrow> int \<Rightarrow> int \<Rightarrow>
    'a mem \<Rightarrow> int \<Rightarrow> int \<Rightarrow> 'a \<Rightarrow> int \<Rightarrow> int \<Rightarrow> int \<Rightarrow> 'a machine \<Rightarrow> 'a machine" where
  "rec2_step uplo transA transB n k alpha Am A ldA Bm B ldB beta C ldC i s =
     (let incB = (if transB = CHR ''N'' then 1 else ldB);
          incC = 1;
          A_0 = A;
          A_i = A + (if transA = CHR ''N'' then i else imul ldA i);
          B_i = B + (if transB = CHR ''N'' then imul ldB i else i);
          C_0i = C + imul ldC i;
          C_ii = C + imul ldC i + i
      in if uplo = CHR ''L'' then
           (let nmi = n - i
            in if transA = CHR ''N''
               then dgemv transA nmi k alpha Am A_i ldA Bm B_i incB beta C_ii incC s
               else dgemv transA k nmi alpha Am A_i ldA Bm B_i incB beta C_ii incC s)
         else
           (let ip1 = i + 1
            in if transA = CHR ''N''
               then dgemv transA ip1 k alpha Am A_0 ldA Bm B_i incB beta C_0i incC s
               else dgemv transA k ip1 alpha Am A_0 ldA Bm B_i incB beta C_0i incC s))"

text \<open>The loop \<open>for (i = 0; i < *n; i++)\<close> runs the pass for \<open>i = 0, ..., n - 1\<close>.\<close>

definition RELAPACK_dgemmt_rec2 :: "char \<Rightarrow> char \<Rightarrow> char \<Rightarrow> int \<Rightarrow> int \<Rightarrow> ('a::semiring_0) \<Rightarrow> 'a mem \<Rightarrow> int \<Rightarrow> int \<Rightarrow>
    'a mem \<Rightarrow> int \<Rightarrow> int \<Rightarrow> 'a \<Rightarrow> int \<Rightarrow> int \<Rightarrow> 'a machine \<Rightarrow> 'a machine" where
  "RELAPACK_dgemmt_rec2 uplo transA transB n k alpha Am A ldA Bm B ldB beta C ldC s =
     fold (rec2_step uplo transA transB n k alpha Am A ldA Bm B ldB beta C ldC) [0..n - 1] s"

subsection \<open>The recursive kernel\<close>

text \<open>
  Whether the recursion ends depends on the splitting policy, which is a parameter:
  the result is \<open>None\<close> when it does not.
\<close>

partial_function (option) RELAPACK_dgemmt_rec :: "('a::semiring_0) relapack_config \<Rightarrow> char \<Rightarrow> char \<Rightarrow> char \<Rightarrow>
    int \<Rightarrow> int \<Rightarrow> 'a \<Rightarrow> 'a mem \<Rightarrow> int \<Rightarrow> int \<Rightarrow> 'a mem \<Rightarrow> int \<Rightarrow> int \<Rightarrow> 'a \<Rightarrow> int \<Rightarrow> int \<Rightarrow>
    'a machine \<Rightarrow> 'a machine option" where
  "RELAPACK_dgemmt_rec cfg uplo transA transB n k alpha Am A ldA Bm B ldB beta C ldC s =
     (if n \<le> max (CROSSOVER_DGEMMT cfg) 1
      then Some (RELAPACK_dgemmt_rec2 uplo transA transB n k alpha Am A ldA Bm B ldB beta C ldC s)
      else
        let n1 = DREC_SPLIT cfg n;
            n2 = n - n1;
            A_T = A;
            A_B = A + (if transA = CHR ''N'' then n1 else imul ldA n1);
            B_L = B;
            B_R = B + (if transB = CHR ''N'' then imul ldB n1 else n1);
            C_TL = C;
            C_TR = C + imul ldC n1;
            C_BL = C + n1;
            C_BR = C + imul ldC n1 + n1
        in do {
          s1 \<leftarrow> RELAPACK_dgemmt_rec cfg uplo transA transB n1 k alpha Am A_T ldA Bm B_L ldB beta C_TL ldC s;
          let s2 = (if uplo = CHR ''L''
                    then dgemm transA transB n2 n1 k alpha Am A_B ldA Bm B_L ldB beta C_BL ldC s1
                    else dgemm transA transB n1 n2 k alpha Am A_T ldA Bm B_R ldB beta C_TR ldC s1);
          RELAPACK_dgemmt_rec cfg uplo transA transB n2 k alpha Am A_B ldA Bm B_R ldB beta C_BR ldC s2
        })"

subsection \<open>The entry point\<close>

definition RELAPACK_dgemmt :: "('a::semiring_0) relapack_config \<Rightarrow> char \<Rightarrow> char \<Rightarrow> char \<Rightarrow>
    int \<Rightarrow> int \<Rightarrow> 'a \<Rightarrow> 'a mem \<Rightarrow> int \<Rightarrow> int \<Rightarrow> 'a mem \<Rightarrow> int \<Rightarrow> int \<Rightarrow> 'a \<Rightarrow> int \<Rightarrow> int \<Rightarrow>
    'a machine \<Rightarrow> 'a machine option" where
  "RELAPACK_dgemmt cfg uplo transA transB n k alpha Am A ldA Bm B ldB beta C ldC s =
     (if HAVE_XGEMMT cfg then
        Some (s\<lparr>Cmem := BLAS_dgemmt cfg uplo transA transB n k alpha Am A ldA Bm B ldB beta C ldC (Cmem s),
                calls := calls s @ [Dgemmt uplo transA transB n k alpha A ldA B ldB beta C ldC]\<rparr>)
      else
        let lower = lsame uplo (CHR ''L'');
            upper = lsame uplo (CHR ''U'');
            notransA = lsame transA (CHR ''N'');
            tranA = lsame transA (CHR ''T'');
            notransB = lsame transB (CHR ''N'');
            tranB = lsame transB (CHR ''T'');
            info = (if \<not> lower \<and> \<not> upper then 1
                    else if \<not> tranA \<and> \<not> notransA then 2
                    else if \<not> tranB \<and> \<not> notransB then 3
                    else if n < 0 then 4
                    else if k < 0 then 5
                    else if ldA < max 1 (if notransA then n else k) then 8
                    else if ldB < max 1 (if notransB then k else n) then 10
                    else if ldC < max 1 n then 13
                    else (0::int))
        in if info \<noteq> 0 then Some (xerbla ''DGEMMT'' info s)
           else
             let cleanuplo = (if lower then CHR ''L'' else CHR ''U'');
                 cleantransA = (if notransA then CHR ''N'' else CHR ''T'');
                 cleantransB = (if notransB then CHR ''N'' else CHR ''T'')
             in RELAPACK_dgemmt_rec cfg cleanuplo cleantransA cleantransB n k alpha Am A ldA Bm B ldB beta C ldC s)"

section \<open>Notions used to state the properties\<close>

text \<open>
  The entry that the full dense product \<open>alpha * op(A) * op(B) + beta * C\<close> has in row
  \<open>i\<close> and column \<open>j\<close>, where \<open>c\<close> is the entry of \<open>C\<close> before the call.
\<close>

definition gemm_entry :: "char \<Rightarrow> char \<Rightarrow> int \<Rightarrow> ('a::semiring_0) \<Rightarrow> 'a mem \<Rightarrow> int \<Rightarrow> int \<Rightarrow>
    'a mem \<Rightarrow> int \<Rightarrow> int \<Rightarrow> 'a \<Rightarrow> int \<Rightarrow> int \<Rightarrow> 'a \<Rightarrow> 'a" where
  "gemm_entry transA transB k alpha Am A ldA Bm B ldB beta i j c =
     alpha * (\<Sum>l\<leftarrow>[0..k - 1]. el transA Am A ldA i l * el transB Bm B ldB l j) + beta * c"

text \<open>
  The cell in row \<open>i\<close> and column \<open>j\<close> lies in the selected triangle of order \<open>n\<close>,
  diagonal included: the lower triangle for \<open>'L'\<close> and the upper one otherwise, which is
  the test \<open>*uplo == 'L'\<close> of the kernels.  \<open>in_rect\<close> is the same for a full
  \<open>m\<close> by \<open>n\<close> block.
\<close>

definition in_tri :: "char \<Rightarrow> int \<Rightarrow> int \<Rightarrow> int \<Rightarrow> bool" where
  "in_tri uplo n i j = (0 \<le> i \<and> i < n \<and> 0 \<le> j \<and> j < n \<and> (if uplo = CHR ''L'' then j \<le> i else i \<le> j))"

definition in_rect :: "int \<Rightarrow> int \<Rightarrow> int \<Rightarrow> int \<Rightarrow> bool" where
  "in_rect m n i j = (0 \<le> i \<and> i < m \<and> 0 \<le> j \<and> j < n)"

text \<open>
  A cell \<open>(i, j)\<close> of the matrix stored at \<open>C\<close> with leading dimension \<open>ldC\<close> has
  the address \<open>C + i + j * ldC\<close>; for \<open>0 \<le> i < ldC\<close> the cell is recovered from the
  address by division with remainder.  \<open>block_update P v C ldC h\<close> is the store \<open>h\<close>
  after every cell in \<open>P\<close> has been replaced by \<open>v\<close> of its old value, and
  \<open>block_addrs P C ldC\<close> is the set of the addresses of these cells.
\<close>

definition block_update :: "(int \<Rightarrow> int \<Rightarrow> bool) \<Rightarrow> (int \<Rightarrow> int \<Rightarrow> 'a \<Rightarrow> 'a) \<Rightarrow> int \<Rightarrow> int \<Rightarrow> 'a mem \<Rightarrow> 'a mem" where
  "block_update P v C ldC h =
     (\<lambda>a. let i = (a - C) mod ldC; j = (a - C) div ldC in if P i j then v i j (h a) else h a)"

definition block_addrs :: "(int \<Rightarrow> int \<Rightarrow> bool) \<Rightarrow> int \<Rightarrow> int \<Rightarrow> int set" where
  "block_addrs P C ldC = {a. P ((a - C) mod ldC) ((a - C) div ldC)}"

text \<open>
  The splitting policy is a parameter.  It is proper when it cuts every order above the
  threshold into two nonempty parts; the recursion ends for such a policy only.
\<close>

definition proper_split :: "'a relapack_config \<Rightarrow> bool" where
  "proper_split cfg = (\<forall>m. max (CROSSOVER_DGEMMT cfg) 1 < m \<longrightarrow> 0 < DREC_SPLIT cfg m \<and> DREC_SPLIT cfg m < m)"

text \<open>
  An index product is exact when it lies in the range of \<open>int\<close>.  \<open>index_range\<close>
  says so of the largest product of each kind that the kernels form for a matrix of order
  \<open>n\<close>, which bounds the others: \<open>ldC * (n - 1)\<close> always, \<open>ldA * (n - 1)\<close> when
  \<open>A\<close> is transposed and \<open>ldB * (n - 1)\<close> when \<open>B\<close> is as given.
\<close>

definition in_int :: "int \<Rightarrow> bool" where
  "in_int x = (- 2147483648 \<le> x \<and> x \<le> 2147483647)"

definition index_range :: "char \<Rightarrow> char \<Rightarrow> int \<Rightarrow> int \<Rightarrow> int \<Rightarrow> int \<Rightarrow> bool" where
  "index_range transA transB n ldA ldB ldC =
     (in_int (ldC * (n - 1)) \<and>
      (transA \<noteq> CHR ''N'' \<longrightarrow> in_int (ldA * (n - 1))) \<and>
      (transB = CHR ''N'' \<longrightarrow> in_int (ldB * (n - 1))))"

text \<open>
  The store that a recorded dense call leaves when it is made on the store \<open>h\<close>, with
  the operands read from \<open>Am\<close> and \<open>Bm\<close>.  The diagnostic routine leaves the store as
  it is; the effect of the native routine is not part of the record.
\<close>

fun apply_call :: "('a::semiring_0) mem \<Rightarrow> 'a mem \<Rightarrow> 'a call \<Rightarrow> 'a mem \<Rightarrow> 'a mem" where
  "apply_call Am Bm (Dgemm transA transB m n k alpha A ldA B ldB beta C ldC) h =
     Cmem (dgemm transA transB m n k alpha Am A ldA Bm B ldB beta C ldC \<lparr>Cmem = h, calls = []\<rparr>)"
| "apply_call Am Bm (Dgemv tr m n alpha A ldA x incx beta y incy) h =
     Cmem (dgemv tr m n alpha Am A ldA Bm x incx beta y incy \<lparr>Cmem = h, calls = []\<rparr>)"
| "apply_call Am Bm (Xerbla name info) h = h"
| "apply_call Am Bm (Dgemmt uplo transA transB n k alpha A ldA B ldB beta C ldC) h = h"

text \<open>
  Following the spec's description of the unblocked kernel: the matrix-vector call for the
  index \<open>i\<close>.  For the lower triangle it has the \<open>n - i\<close> rows (or columns, for a
  transposed \<open>A\<close>) of \<open>A\<close> from \<open>i\<close> on and writes the column segment that starts
  at the diagonal element; for the upper triangle it has the first \<open>i + 1\<close> rows (or
  columns) of \<open>A\<close> and writes the column segment that ends at the diagonal element.  The
  vector is column \<open>i\<close> of \<open>op(B)\<close>, with stride 1 for \<open>'N'\<close> and \<open>ldB\<close>
  otherwise; the output stride is 1.
\<close>

definition spec_rec2_call :: "char \<Rightarrow> char \<Rightarrow> char \<Rightarrow> int \<Rightarrow> int \<Rightarrow> 'a \<Rightarrow> int \<Rightarrow> int \<Rightarrow> int \<Rightarrow> int \<Rightarrow> 'a \<Rightarrow> int \<Rightarrow> int \<Rightarrow> int \<Rightarrow> 'a call" where
  "spec_rec2_call uplo transA transB n k alpha A ldA B ldB beta C ldC i =
     (if uplo = CHR ''L''
      then Dgemv transA (if transA = CHR ''N'' then n - i else k) (if transA = CHR ''N'' then k else n - i) alpha
             (A + (if transA = CHR ''N'' then i else ldA * i)) ldA
             (B + (if transB = CHR ''N'' then ldB * i else i)) (if transB = CHR ''N'' then 1 else ldB)
             beta (C + ldC * i + i) 1
      else Dgemv transA (if transA = CHR ''N'' then i + 1 else k) (if transA = CHR ''N'' then k else i + 1) alpha
             A ldA
             (B + (if transB = CHR ''N'' then ldB * i else i)) (if transB = CHR ''N'' then 1 else ldB)
             beta (C + ldC * i) 1)"

text \<open>
  The dense matrix-matrix call of one level of the recursion, and the storage of the
  off-diagonal quadrant it is given: bottom left for the lower triangle, top right for the
  upper one.
\<close>

definition offdiag_call :: "'a relapack_config \<Rightarrow> char \<Rightarrow> char \<Rightarrow> char \<Rightarrow> int \<Rightarrow> int \<Rightarrow> 'a \<Rightarrow> int \<Rightarrow> int \<Rightarrow> int \<Rightarrow> int \<Rightarrow> 'a \<Rightarrow> int \<Rightarrow> int \<Rightarrow> 'a call" where
  "offdiag_call cfg uplo transA transB n k alpha A ldA B ldB beta C ldC =
     (let n1 = DREC_SPLIT cfg n; n2 = n - n1
      in if uplo = CHR ''L''
         then Dgemm transA transB n2 n1 k alpha (A + (if transA = CHR ''N'' then n1 else ldA * n1)) ldA B ldB beta (C + n1) ldC
         else Dgemm transA transB n1 n2 k alpha A ldA (B + (if transB = CHR ''N'' then ldB * n1 else n1)) ldB beta (C + ldC * n1) ldC)"

definition offdiag_addrs :: "char \<Rightarrow> int \<Rightarrow> int \<Rightarrow> int \<Rightarrow> int \<Rightarrow> int set" where
  "offdiag_addrs uplo n n1 C ldC =
     (if uplo = CHR ''L'' then block_addrs (in_rect (n - n1) n1) (C + n1) ldC
      else block_addrs (in_rect n1 (n - n1)) (C + ldC * n1) ldC)"

text \<open>
  The canonical selectors that the entry point hands to the kernels
  (\<open>cleanuplo\<close>, \<open>cleantransA\<close>, \<open>cleantransB\<close> in the source).
\<close>

definition clean_uplo :: "char \<Rightarrow> char" where
  "clean_uplo uplo = (if lsame uplo (CHR ''L'') then CHR ''L'' else CHR ''U'')"

definition clean_trans :: "char \<Rightarrow> char" where
  "clean_trans tr = (if lsame tr (CHR ''N'') then CHR ''N'' else CHR ''T'')"

text \<open>
  Following the spec's words: an input is valid when the triangle selector resolves to
  lower or upper, both transpose selectors resolve to as-given or transposed, \<open>n\<close> and
  \<open>k\<close> are not negative, and each leading dimension is at least 1 and at least the
  number of rows of its matrix as stored.  \<open>spec_first_violation\<close> scans the constraints
  in the order of the spec and gives the 1-based position, in the parameter list, of the
  first one that is violated.
\<close>

definition valid_args :: "char \<Rightarrow> char \<Rightarrow> char \<Rightarrow> int \<Rightarrow> int \<Rightarrow> int \<Rightarrow> int \<Rightarrow> int \<Rightarrow> bool" where
  "valid_args uplo transA transB n k ldA ldB ldC =
     ((lsame uplo (CHR ''L'') \<or> lsame uplo (CHR ''U'')) \<and>
      (lsame transA (CHR ''N'') \<or> lsame transA (CHR ''T'')) \<and>
      (lsame transB (CHR ''N'') \<or> lsame transB (CHR ''T'')) \<and>
      0 \<le> n \<and> 0 \<le> k \<and>
      max 1 (if lsame transA (CHR ''N'') then n else k) \<le> ldA \<and>
      max 1 (if lsame transB (CHR ''N'') then k else n) \<le> ldB \<and>
      max 1 n \<le> ldC)"

definition spec_first_violation :: "char \<Rightarrow> char \<Rightarrow> char \<Rightarrow> int \<Rightarrow> int \<Rightarrow> int \<Rightarrow> int \<Rightarrow> int \<Rightarrow> int option" where
  "spec_first_violation uplo transA transB n k ldA ldB ldC =
     map_option snd (find fst
       [(\<not> (lsame uplo (CHR ''L'') \<or> lsame uplo (CHR ''U'')), 1),
        (\<not> (lsame transA (CHR ''N'') \<or> lsame transA (CHR ''T'')), 2),
        (\<not> (lsame transB (CHR ''N'') \<or> lsame transB (CHR ''T'')), 3),
        (n < 0, 4),
        (k < 0, 5),
        (ldA < max 1 (if lsame transA (CHR ''N'') then n else k), 8),
        (ldB < max 1 (if lsame transB (CHR ''N'') then k else n), 10),
        (ldC < max 1 n, 13)])"

text \<open>
  Concrete inputs: a configuration without the native routine, with threshold 1 and a
  policy that halves (rounding to a multiple of 8 from order 16 on); the same with the
  native routine; two operand stores and a machine state.
\<close>

definition sample_split :: "int \<Rightarrow> int" where
  "sample_split n = (if 16 \<le> n then (n + 8) div 16 * 8 else n div 2)"

definition sample_config :: "int relapack_config" where
  "sample_config = \<lparr>HAVE_XGEMMT = False, CROSSOVER_DGEMMT = 1, DREC_SPLIT = sample_split,
     BLAS_dgemmt = (\<lambda>uplo transA transB n k alpha Am A ldA Bm B ldB beta C ldC h. h)\<rparr>"

definition native_config :: "int relapack_config" where
  "native_config = sample_config\<lparr>HAVE_XGEMMT := True\<rparr>"

definition sample_A :: "int mem" where "sample_A a = a + 1"

definition sample_B :: "int mem" where "sample_B a = a + 7"

definition sample_machine :: "int machine" where
  "sample_machine = \<lparr>Cmem = (\<lambda>a. 100 + a), calls = []\<rparr>"

section \<open>Index products in range\<close>

lemma imul_in_int: "in_int (a * b) \<Longrightarrow> imul a b = a * b"
  by (simp add: imul_def c_int_def in_int_def)

lemma in_int_between:
  assumes "in_int (ld * m)" "0 \<le> i" "i \<le> m"
  shows "in_int (ld * i)"
proof (cases "0 \<le> ld")
  case True
  have "0 \<le> ld * i" "ld * i \<le> ld * m"
    using True assms(2,3) by (simp_all add: mult_left_mono)
  then show ?thesis using assms(1) by (simp add: in_int_def)
next
  case False
  then have n: "ld \<le> 0" by simp
  have "ld * i \<le> 0" "ld * m \<le> ld * i"
    using n assms(2,3) by (simp_all add: mult_nonpos_nonneg mult_left_mono_neg)
  then show ?thesis using assms(1) by (simp add: in_int_def)
qed

lemma index_range_products:
  assumes "index_range transA transB n ldA ldB ldC" "0 \<le> i" "i \<le> n - 1"
  shows "imul ldC i = ldC * i"
    and "(if transA = CHR ''N'' then i else imul ldA i) = (if transA = CHR ''N'' then i else ldA * i)"
    and "(if transB = CHR ''N'' then imul ldB i else i) = (if transB = CHR ''N'' then ldB * i else i)"
  using assms in_int_between [OF _ assms(2,3)]
  by (simp_all add: index_range_def imul_in_int)

lemma index_range_sub:
  assumes "index_range transA transB n ldA ldB ldC" "1 \<le> m" "m \<le> n"
  shows "index_range transA transB m ldA ldB ldC"
  using assms in_int_between [of _ "n - 1" "m - 1"]
  by (simp add: index_range_def)

section \<open>Addresses and cells\<close>

lemma seg_decode:
  fixes x :: int
  assumes "m \<le> ld" "0 \<le> lo"
  shows "(lo \<le> x - j * ld \<and> x - j * ld < m) \<longleftrightarrow> (x div ld = j \<and> lo \<le> x mod ld \<and> x mod ld < m)"
proof (cases "0 < ld")
  case False
  then show ?thesis using assms by auto
next
  case True
  show ?thesis
  proof
    assume h: "lo \<le> x - j * ld \<and> x - j * ld < m"
    have "x = ld * j + (x - j * ld)" by (simp add: algebra_simps)
    moreover have "0 \<le> x - j * ld" "x - j * ld < ld" using h assms by auto
    ultimately have "x div ld = j" "x mod ld = x - j * ld"
      by (metis int_div_pos_eq, metis int_mod_pos_eq)
    then show "x div ld = j \<and> lo \<le> x mod ld \<and> x mod ld < m" using h by simp
  next
    assume h: "x div ld = j \<and> lo \<le> x mod ld \<and> x mod ld < m"
    have "x - j * ld = x mod ld" using h minus_div_mult_eq_mod [of x ld] by auto
    then show "lo \<le> x - j * ld \<and> x - j * ld < m" using h by simp
  qed
qed

lemma seg_decode_val:
  fixes x :: int
  shows "x div ld = j \<Longrightarrow> x - j * ld = x mod ld"
  using minus_div_mult_eq_mod [of x ld] by auto

lemma decode_shift:
  fixes x :: int
  assumes "0 < ld" "0 \<le> r0" "r0 \<le> ld"
  shows "(x - ld * c0 - r0) mod ld = (if r0 \<le> x mod ld then x mod ld - r0 else x mod ld - r0 + ld)"
    and "(x - ld * c0 - r0) div ld = (if r0 \<le> x mod ld then x div ld - c0 else x div ld - c0 - 1)"
proof -
  have x: "x = ld * (x div ld) + x mod ld" by simp
  have b: "0 \<le> x mod ld" "x mod ld < ld" using assms by simp_all
  show "(x - ld * c0 - r0) mod ld = (if r0 \<le> x mod ld then x mod ld - r0 else x mod ld - r0 + ld)"
  proof (cases "r0 \<le> x mod ld")
    case True
    have "x - ld * c0 - r0 = ld * (x div ld - c0) + (x mod ld - r0)"
      using x by (simp add: algebra_simps)
    moreover have "0 \<le> x mod ld - r0" "x mod ld - r0 < ld" using True b assms by linarith+
    ultimately have "(x - ld * c0 - r0) mod ld = x mod ld - r0" by (metis int_mod_pos_eq)
    then show ?thesis using True by simp
  next
    case False
    have "x - ld * c0 - r0 = ld * (x div ld - c0 - 1) + (x mod ld - r0 + ld)"
      using x by (simp add: algebra_simps)
    moreover have "0 \<le> x mod ld - r0 + ld" "x mod ld - r0 + ld < ld" using False b assms by linarith+
    ultimately have "(x - ld * c0 - r0) mod ld = x mod ld - r0 + ld" by (metis int_mod_pos_eq)
    then show ?thesis using False by simp
  qed
  show "(x - ld * c0 - r0) div ld = (if r0 \<le> x mod ld then x div ld - c0 else x div ld - c0 - 1)"
  proof (cases "r0 \<le> x mod ld")
    case True
    have "x - ld * c0 - r0 = ld * (x div ld - c0) + (x mod ld - r0)"
      using x by (simp add: algebra_simps)
    moreover have "0 \<le> x mod ld - r0" "x mod ld - r0 < ld" using True b assms by linarith+
    ultimately have "(x - ld * c0 - r0) div ld = x div ld - c0" by (metis int_div_pos_eq)
    then show ?thesis using True by simp
  next
    case False
    have "x - ld * c0 - r0 = ld * (x div ld - c0 - 1) + (x mod ld - r0 + ld)"
      using x by (simp add: algebra_simps)
    moreover have "0 \<le> x mod ld - r0 + ld" "x mod ld - r0 + ld < ld" using False b assms by linarith+
    ultimately have "(x - ld * c0 - r0) div ld = x div ld - c0 - 1" by (metis int_div_pos_eq)
    then show ?thesis using False by simp
  qed
qed

lemma decode_cell:
  fixes i :: int
  assumes "0 \<le> i" "i < ldC"
  shows "(C + i + j * ldC - C) mod ldC = i" "(C + i + j * ldC - C) div ldC = j"
  using assms by simp_all

lemma encode_cell: "C + (a - C) mod ldC + (a - C) div ldC * ldC = (a :: int)"
  by simp

section \<open>Loops of point updates\<close>

lemma fold_point_updates:
  "distinct xs \<Longrightarrow>
   fold (\<lambda>i h. h(y + i := g i (h (y + i)))) xs h =
     (\<lambda>a::int. if a - y \<in> set xs then g (a - y) (h a) else h a)"
proof (induction xs arbitrary: h)
  case Nil
  then show ?case by simp
next
  case (Cons i xs)
  then show ?case by (auto simp: fun_eq_iff)
qed

lemma fold_region_updates:
  "distinct xs \<Longrightarrow>
   fold (\<lambda>j h a. if sel a = j \<and> P a then v a (h a) else h a) xs h =
     (\<lambda>a. if sel a \<in> set xs \<and> P a then v a (h a) else h a)"
proof (induction xs arbitrary: h)
  case Nil
  then show ?case by simp
next
  case (Cons i xs)
  then show ?case by (auto simp: fun_eq_iff)
qed

lemma Cmem_fold:
  "(\<And>i s. i \<in> set xs \<Longrightarrow> Cmem (f i s) = g i (Cmem s)) \<Longrightarrow> Cmem (fold f xs s) = fold g xs (Cmem s)"
proof (induction xs arbitrary: s)
  case Nil
  then show ?case by simp
next
  case (Cons i xs)
  then show ?case by simp
qed

lemma calls_fold:
  "(\<And>i s. i \<in> set xs \<Longrightarrow> calls (f i s) = calls s @ [e i]) \<Longrightarrow> calls (fold f xs s) = calls s @ map e xs"
proof (induction xs arbitrary: s)
  case Nil
  then show ?case by simp
next
  case (Cons i xs)
  then show ?case by simp
qed

lemma distinct_concat_sel:
  assumes "distinct js" "\<And>j. j \<in> set js \<Longrightarrow> distinct (w j)"
    "\<And>j a. j \<in> set js \<Longrightarrow> a \<in> set (w j) \<Longrightarrow> sel a = j"
  shows "distinct (concat (map w js))"
  using assms
proof (induction js)
  case Nil
  then show ?case by simp
next
  case (Cons j js)
  have "set (w j) \<inter> (\<Union>x\<in>set js. set (w x)) = {}"
  proof (rule ccontr)
    assume "set (w j) \<inter> (\<Union>x\<in>set js. set (w x)) \<noteq> {}"
    then obtain a x where "a \<in> set (w j)" "x \<in> set js" "a \<in> set (w x)" by blast
    then have "sel a = j" "sel a = x" using Cons.prems(3) by auto
    then show False using Cons.prems(1) \<open>x \<in> set js\<close> by auto
  qed
  then show ?case using Cons by auto
qed

section \<open>Updates of a block of cells\<close>

lemma block_update_shift:
  assumes "0 < ldC" "0 \<le> r0" "r0 \<le> ldC" "r0 + m \<le> ldC" "\<And>i j. P i j \<Longrightarrow> 0 \<le> i \<and> i < m"
  shows "block_update P v (C + ldC * c0 + r0) ldC h =
         block_update (\<lambda>i j. P (i - r0) (j - c0)) (\<lambda>i j. v (i - r0) (j - c0)) C ldC h"
proof (rule ext)
  fix a
  let ?x = "a - C"
  have e: "a - (C + ldC * c0 + r0) = ?x - ldC * c0 - r0" by simp
  note d = decode_shift [OF assms(1,2,3), of ?x c0]
  show "block_update P v (C + ldC * c0 + r0) ldC h a =
         block_update (\<lambda>i j. P (i - r0) (j - c0)) (\<lambda>i j. v (i - r0) (j - c0)) C ldC h a"
  proof (cases "r0 \<le> ?x mod ldC")
    case True
    then show ?thesis unfolding block_update_def e Let_def d by simp
  next
    case False
    have nn: "0 \<le> ?x mod ldC" using assms(1) by simp
    have "\<not> P (?x mod ldC - r0 + ldC) (?x div ldC - c0 - 1)"
    proof
      assume "P (?x mod ldC - r0 + ldC) (?x div ldC - c0 - 1)"
      then have "?x mod ldC - r0 + ldC < m" using assms(5) by blast
      then show False using nn assms(4) by linarith
    qed
    moreover have "\<not> P (?x mod ldC - r0) (?x div ldC - c0)"
      using assms(5) [of "?x mod ldC - r0" "?x div ldC - c0"] False by auto
    ultimately show ?thesis using False unfolding block_update_def e Let_def d by simp
  qed
qed

lemma block_update_compose:
  assumes "\<And>i j. \<not> (P i j \<and> Q i j)"
  shows "block_update P v C ldC (block_update Q v C ldC h) = block_update (\<lambda>i j. P i j \<or> Q i j) v C ldC h"
  using assms by (auto simp: block_update_def Let_def fun_eq_iff)

lemma block_update_cong:
  assumes "\<And>i j. P i j = Q i j" "\<And>i j c. Q i j \<Longrightarrow> v i j c = w i j c"
  shows "block_update P v C ldC h = block_update Q w C ldC h"
  using assms by (auto simp: block_update_def Let_def fun_eq_iff)

lemma block_update_cell:
  assumes "0 \<le> i" "i < ldC"
  shows "block_update P v C ldC h (C + i + j * ldC) =
     (if P i j then v i j (h (C + i + j * ldC)) else h (C + i + j * ldC))"
  unfolding block_update_def Let_def decode_cell [OF assms] ..

lemma block_update_outside:
  assumes "\<And>i j. P i j \<Longrightarrow> a \<noteq> C + i + j * ldC"
  shows "block_update P v C ldC h a = h a"
  using assms [of "(a - C) mod ldC" "(a - C) div ldC"] encode_cell [of C a ldC]
  unfolding block_update_def Let_def by auto

lemma block_addrs_cells:
  assumes "\<And>i j. P i j \<Longrightarrow> 0 \<le> i \<and> i < ldC"
  shows "block_addrs P C ldC = {C + i + j * ldC | i j. P i j}"
proof (rule set_eqI)
  fix a
  show "a \<in> block_addrs P C ldC \<longleftrightarrow> a \<in> {C + i + j * ldC | i j. P i j}"
  proof
    assume "a \<in> block_addrs P C ldC"
    then have "P ((a - C) mod ldC) ((a - C) div ldC)" by (simp add: block_addrs_def)
    then show "a \<in> {C + i + j * ldC | i j. P i j}"
      using encode_cell [of C a ldC, symmetric] by blast
  next
    assume "a \<in> {C + i + j * ldC | i j. P i j}"
    then obtain i j where a: "a = C + i + j * ldC" and p: "P i j" by blast
    then show "a \<in> block_addrs P C ldC"
      using assms [OF p] by (simp add: block_addrs_def)
  qed
qed

lemma block_addrs_update:
  "block_addrs P C ldC = {a. block_update P (\<lambda>i j c. True) C ldC (\<lambda>a. False) a}"
  by (simp add: block_addrs_def block_update_def Let_def)

lemma block_addrs_shift:
  assumes "0 < ldC" "0 \<le> r0" "r0 \<le> ldC" "r0 + m \<le> ldC" "\<And>i j. P i j \<Longrightarrow> 0 \<le> i \<and> i < m"
  shows "block_addrs P (C + ldC * c0 + r0) ldC = block_addrs (\<lambda>i j. P (i - r0) (j - c0)) C ldC"
proof -
  have "block_update P (\<lambda>i j c. True) (C + ldC * c0 + r0) ldC (\<lambda>a. False) =
        block_update (\<lambda>i j. P (i - r0) (j - c0)) (\<lambda>i j c. True) C ldC (\<lambda>a. False)"
    by (rule block_update_shift [OF assms])
  then show ?thesis unfolding block_addrs_update by simp
qed

lemma block_addrs_Un: "block_addrs P C ldC \<union> block_addrs Q C ldC = block_addrs (\<lambda>i j. P i j \<or> Q i j) C ldC"
  by (auto simp: block_addrs_def)

lemma block_addrs_disjoint:
  "(\<And>i j. \<not> (P i j \<and> Q i j)) \<Longrightarrow> block_addrs P C ldC \<inter> block_addrs Q C ldC = {}"
  by (auto simp: block_addrs_def)

lemma block_addrs_cong:
  "(\<And>i j. P i j = Q i j) \<Longrightarrow> block_addrs P C ldC = block_addrs Q C ldC"
  by (simp add: block_addrs_def)

lemma tri_addrs_cells:
  assumes "n \<le> ldC"
  shows "block_addrs (in_tri uplo n) C ldC = {C + i + j * ldC | i j. in_tri uplo n i j}"
  by (rule block_addrs_cells) (use assms in \<open>auto simp: in_tri_def\<close>)

section \<open>The dense primitives in closed form\<close>

lemma el_row_shift:
  "el tr M (X + (if tr = CHR ''N'' then d else ld * d)) ld i j = el tr M X ld (d + i) j"
  by (simp add: el_def algebra_simps)

lemma el_col_shift:
  "el tr M (X + (if tr = CHR ''N'' then ld * d else d)) ld i j = el tr M X ld i (d + j)"
  by (simp add: el_def algebra_simps)

lemma el_vec:
  "M (X + (if tr = CHR ''N'' then ld * j else j) + l * (if tr = CHR ''N'' then 1 else ld)) = el tr M X ld l j"
  by (simp add: el_def algebra_simps)

lemma gemm_entry_row_shift:
  "gemm_entry transA transB k alpha Am (A + (if transA = CHR ''N'' then r0 else ldA * r0)) ldA Bm B ldB beta i j c =
   gemm_entry transA transB k alpha Am A ldA Bm B ldB beta (r0 + i) j c"
  unfolding gemm_entry_def el_row_shift ..

lemma gemm_entry_col_shift:
  "gemm_entry transA transB k alpha Am A ldA Bm (B + (if transB = CHR ''N'' then ldB * c0 else c0)) ldB beta i j c =
   gemm_entry transA transB k alpha Am A ldA Bm B ldB beta i (c0 + j) c"
  unfolding gemm_entry_def el_col_shift ..

lemma dgemv_N_Cmem:
  "Cmem (dgemv (CHR ''N'') m n alpha Am A ldA Xm x incx beta y 1 s) =
     (\<lambda>a. if 0 \<le> a - y \<and> a - y < m
           then alpha * (\<Sum>j\<leftarrow>[0..n - 1]. Am (A + (a - y) + j * ldA) * Xm (x + j * incx)) + beta * Cmem s a
           else Cmem s a)"
  using fold_point_updates [of "[0..m - 1]" y "\<lambda>i c. alpha * (\<Sum>j\<leftarrow>[0..n - 1]. Am (A + i + j * ldA) * Xm (x + j * incx)) + beta * c" "Cmem s"]
  by (auto simp: dgemv_def fun_eq_iff)

lemma dgemv_T_Cmem:
  "tr \<noteq> CHR ''N'' \<Longrightarrow> Cmem (dgemv tr m n alpha Am A ldA Xm x incx beta y 1 s) =
     (\<lambda>a. if 0 \<le> a - y \<and> a - y < n
           then alpha * (\<Sum>i\<leftarrow>[0..m - 1]. Am (A + i + (a - y) * ldA) * Xm (x + i * incx)) + beta * Cmem s a
           else Cmem s a)"
  using fold_point_updates [of "[0..n - 1]" y "\<lambda>j c. alpha * (\<Sum>i\<leftarrow>[0..m - 1]. Am (A + i + j * ldA) * Xm (x + i * incx)) + beta * c" "Cmem s"]
  by (auto simp: dgemv_def fun_eq_iff)

lemma dgemv_Cmem:
  "Cmem (dgemv tr m n alpha Am A ldA Xm x incx beta y 1 s) =
     (\<lambda>a. if 0 \<le> a - y \<and> a - y < (if tr = CHR ''N'' then m else n)
           then alpha * (\<Sum>l\<leftarrow>[0..(if tr = CHR ''N'' then n else m) - 1].
                           el tr Am A ldA (a - y) l * Xm (x + l * incx)) + beta * Cmem s a
           else Cmem s a)"
proof (cases "tr = CHR ''N''")
  case True
  then show ?thesis by (simp add: dgemv_N_Cmem el_def add.assoc cong: if_cong)
next
  case False
  then show ?thesis by (simp add: dgemv_T_Cmem el_def add.assoc cong: if_cong)
qed

lemma dgemm_column:
  assumes "m \<le> ldC"
  shows "fold (\<lambda>i h. h(C + i + j * ldC := gemm_entry transA transB k alpha Am A ldA Bm B ldB beta i j (h (C + i + j * ldC)))) [0..m - 1] h =
    (\<lambda>a. if (a - C) div ldC = j \<and> 0 \<le> (a - C) mod ldC \<and> (a - C) mod ldC < m
          then gemm_entry transA transB k alpha Am A ldA Bm B ldB beta ((a - C) mod ldC) ((a - C) div ldC) (h a)
          else h a)"
proof -
  let ?g = "\<lambda>i. gemm_entry transA transB k alpha Am A ldA Bm B ldB beta i j"
  have "fold (\<lambda>i h. h(C + i + j * ldC := ?g i (h (C + i + j * ldC)))) [0..m - 1] h =
      fold (\<lambda>i h. h((C + j * ldC) + i := ?g i (h ((C + j * ldC) + i)))) [0..m - 1] h"
  proof -
    have ac: "\<And>i. C + i + j * ldC = (C + j * ldC) + i" by simp
    show ?thesis unfolding ac ..
  qed
  also have "\<dots> = (\<lambda>a. if a - (C + j * ldC) \<in> set [0..m - 1] then ?g (a - (C + j * ldC)) (h a) else h a)"
    by (rule fold_point_updates) simp
  also have "\<dots> = (\<lambda>a. if (a - C) div ldC = j \<and> 0 \<le> (a - C) mod ldC \<and> (a - C) mod ldC < m
          then gemm_entry transA transB k alpha Am A ldA Bm B ldB beta ((a - C) mod ldC) ((a - C) div ldC) (h a)
          else h a)"
  proof (rule ext)
    fix a
    have e: "a - (C + j * ldC) = (a - C) - j * ldC" by simp
    have S: "(0 \<le> a - (C + j * ldC) \<and> a - (C + j * ldC) < m) \<longleftrightarrow>
        ((a - C) div ldC = j \<and> 0 \<le> (a - C) mod ldC \<and> (a - C) mod ldC < m)"
      unfolding e using seg_decode [of m ldC 0 "a - C" j] assms by auto
    have V: "(a - C) div ldC = j \<Longrightarrow> a - (C + j * ldC) = (a - C) mod ldC"
      unfolding e by (rule seg_decode_val)
    have "a - (C + j * ldC) \<in> set [0..m - 1] \<longleftrightarrow> (0 \<le> a - (C + j * ldC) \<and> a - (C + j * ldC) < m)"
      by auto
    then show "(if a - (C + j * ldC) \<in> set [0..m - 1] then ?g (a - (C + j * ldC)) (h a) else h a) =
        (if (a - C) div ldC = j \<and> 0 \<le> (a - C) mod ldC \<and> (a - C) mod ldC < m
          then gemm_entry transA transB k alpha Am A ldA Bm B ldB beta ((a - C) mod ldC) ((a - C) div ldC) (h a)
          else h a)"
      unfolding S using V by auto
  qed
  finally show ?thesis .
qed

lemma dgemm_Cmem:
  assumes "m \<le> ldC"
  shows "Cmem (dgemm transA transB m n k alpha Am A ldA Bm B ldB beta C ldC s) =
    block_update (in_rect m n) (gemm_entry transA transB k alpha Am A ldA Bm B ldB beta) C ldC (Cmem s)"
proof -
  let ?sel = "\<lambda>a. (a - C) div ldC"
  let ?P = "\<lambda>a. 0 \<le> (a - C) mod ldC \<and> (a - C) mod ldC < m"
  let ?v = "\<lambda>a. gemm_entry transA transB k alpha Am A ldA Bm B ldB beta ((a - C) mod ldC) ((a - C) div ldC)"
  have "Cmem (dgemm transA transB m n k alpha Am A ldA Bm B ldB beta C ldC s) =
      fold (\<lambda>j. fold (\<lambda>i h. h(C + i + j * ldC := gemm_entry transA transB k alpha Am A ldA Bm B ldB beta i j (h (C + i + j * ldC)))) [0..m - 1])
        [0..n - 1] (Cmem s)"
    by (simp add: dgemm_def gemm_entry_def)
  also have "\<dots> = fold (\<lambda>j h a. if ?sel a = j \<and> ?P a then ?v a (h a) else h a) [0..n - 1] (Cmem s)"
  proof -
    have col: "\<And>j. fold (\<lambda>i h. h(C + i + j * ldC := gemm_entry transA transB k alpha Am A ldA Bm B ldB beta i j (h (C + i + j * ldC)))) [0..m - 1]
        = (\<lambda>h a. if ?sel a = j \<and> ?P a then ?v a (h a) else h a)"
      by (rule ext) (rule dgemm_column [OF assms])
    show ?thesis unfolding col ..
  qed
  also have "\<dots> = (\<lambda>a. if ?sel a \<in> set [0..n - 1] \<and> ?P a then ?v a (Cmem s a) else Cmem s a)"
    by (rule fold_region_updates) simp
  also have "\<dots> = block_update (in_rect m n) (gemm_entry transA transB k alpha Am A ldA Bm B ldB beta) C ldC (Cmem s)"
    by (auto simp: block_update_def fun_eq_iff Let_def in_rect_def)
  finally show ?thesis .
qed

lemma dgemm_writes_mem:
  "a \<in> set (dgemm_writes m n C ldC) \<longleftrightarrow> (\<exists>j\<in>{0..n - 1}. \<exists>i\<in>{0..m - 1}. a = C + i + j * ldC)"
  by (auto simp: dgemm_writes_def)

lemma dgemm_writes_set:
  assumes "m \<le> ldC"
  shows "set (dgemm_writes m n C ldC) = block_addrs (in_rect m n) C ldC"
proof -
  have "block_addrs (in_rect m n) C ldC = {C + i + j * ldC | i j. in_rect m n i j}"
    by (rule block_addrs_cells) (use assms in \<open>auto simp: in_rect_def\<close>)
  also have "\<dots> = set (dgemm_writes m n C ldC)"
  proof (rule set_eqI)
    fix a
    have "a \<in> {C + i + j * ldC | i j. in_rect m n i j} \<longleftrightarrow> (\<exists>j i. (0 \<le> j \<and> j \<le> n - 1) \<and> (0 \<le> i \<and> i \<le> m - 1) \<and> a = C + i + j * ldC)"
      unfolding in_rect_def mem_Collect_eq by (simp only: zle_diff1_eq) blast
    also have "\<dots> \<longleftrightarrow> a \<in> set (dgemm_writes m n C ldC)"
      unfolding dgemm_writes_mem Bex_def atLeastAtMost_iff by blast
    finally show "a \<in> {C + i + j * ldC | i j. in_rect m n i j} \<longleftrightarrow> a \<in> set (dgemm_writes m n C ldC)" .
  qed
  finally show ?thesis by simp
qed

lemma dgemm_writes_distinct:
  assumes "m \<le> ldC"
  shows "distinct (dgemm_writes m n C ldC)"
  unfolding dgemm_writes_def
proof (rule distinct_concat_sel [where sel = "\<lambda>a. (a - C) div ldC"])
  show "distinct [0..n - 1]" by simp
next
  fix j
  show "distinct (map (\<lambda>i. C + i + j * ldC) [0..m - 1])"
    by (simp add: distinct_map inj_on_def)
next
  fix j a
  assume "a \<in> set (map (\<lambda>i. C + i + j * ldC) [0..m - 1])"
  then obtain i where "a = C + i + j * ldC" "0 \<le> i" "i < m" by auto
  then show "(a - C) div ldC = j" using assms by simp
qed

section \<open>The unblocked kernel in closed form\<close>

text \<open>While the index products are in range, a pass of the loop is what it is with exact
  products.\<close>

lemma rec2_step_in_range:
  assumes "0 \<le> i" "i < n" "index_range transA transB n ldA ldB ldC"
  shows "rec2_step uplo transA transB n k alpha Am A ldA Bm B ldB beta C ldC i s =
     (let incB = (if transB = CHR ''N'' then 1 else ldB);
          incC = 1;
          A_0 = A;
          A_i = A + (if transA = CHR ''N'' then i else ldA * i);
          B_i = B + (if transB = CHR ''N'' then ldB * i else i);
          C_0i = C + ldC * i;
          C_ii = C + ldC * i + i
      in if uplo = CHR ''L'' then
           (let nmi = n - i
            in if transA = CHR ''N''
               then dgemv transA nmi k alpha Am A_i ldA Bm B_i incB beta C_ii incC s
               else dgemv transA k nmi alpha Am A_i ldA Bm B_i incB beta C_ii incC s)
         else
           (let ip1 = i + 1
            in if transA = CHR ''N''
               then dgemv transA ip1 k alpha Am A_0 ldA Bm B_i incB beta C_0i incC s
               else dgemv transA k ip1 alpha Am A_0 ldA Bm B_i incB beta C_0i incC s))"
proof -
  have "i \<le> n - 1" using assms(2) by simp
  note e = index_range_products [OF assms(3) assms(1) this]
  show ?thesis unfolding rec2_step_def e ..
qed

lemma rec2_step_Cmem_raw:
  assumes "0 \<le> i" "i < n" "index_range transA transB n ldA ldB ldC"
  shows "Cmem (rec2_step uplo transA transB n k alpha Am A ldA Bm B ldB beta C ldC i s) a =
    (if uplo = CHR ''L''
     then (if 0 \<le> a - (C + ldC * i + i) \<and> a - (C + ldC * i + i) < n - i
           then gemm_entry transA transB k alpha Am A ldA Bm B ldB beta (i + (a - (C + ldC * i + i))) i (Cmem s a)
           else Cmem s a)
     else (if 0 \<le> a - (C + ldC * i) \<and> a - (C + ldC * i) < i + 1
           then gemm_entry transA transB k alpha Am A ldA Bm B ldB beta (a - (C + ldC * i)) i (Cmem s a)
           else Cmem s a))"
proof -
  have v: "\<And>l. Bm (B + (if transB = CHR ''N'' then ldB * i else i) + l * (if transB = CHR ''N'' then 1 else ldB))
      = el transB Bm B ldB l i"
    by (rule el_vec)
  have r: "\<And>d l. el transA Am (A + (if transA = CHR ''N'' then i else ldA * i)) ldA d l = el transA Am A ldA (i + d) l"
    by (rule el_row_shift)
  show ?thesis
  proof (cases "uplo = CHR ''L''")
    case L: True
    show ?thesis
    proof (cases "transA = CHR ''N''")
      case True
      show ?thesis unfolding rec2_step_in_range [OF assms] using L True r [unfolded True] v
        by (simp add: Let_def gemm_entry_def dgemv_Cmem cong: if_cong)
    next
      case False
      show ?thesis unfolding rec2_step_in_range [OF assms] using L False r v
        by (simp add: Let_def gemm_entry_def dgemv_Cmem cong: if_cong)
    qed
  next
    case U: False
    show ?thesis
    proof (cases "transA = CHR ''N''")
      case True
      show ?thesis unfolding rec2_step_in_range [OF assms] using U True v
        by (simp add: Let_def gemm_entry_def dgemv_Cmem cong: if_cong)
    next
      case False
      show ?thesis unfolding rec2_step_in_range [OF assms] using U False v
        by (simp add: Let_def gemm_entry_def dgemv_Cmem cong: if_cong)
    qed
  qed
qed

lemma rec2_step_Cmem:
  assumes "0 \<le> i" "i < n" "n \<le> ldC" "index_range transA transB n ldA ldB ldC"
  shows "Cmem (rec2_step uplo transA transB n k alpha Am A ldA Bm B ldB beta C ldC i s) =
    (\<lambda>a. if (a - C) div ldC = i \<and> in_tri uplo n ((a - C) mod ldC) ((a - C) div ldC)
          then gemm_entry transA transB k alpha Am A ldA Bm B ldB beta ((a - C) mod ldC) ((a - C) div ldC) (Cmem s a)
          else Cmem s a)"
proof (rule ext)
  fix a
  let ?x = "a - C"
  have e1: "a - (C + ldC * i + i) = ?x - i * ldC - i" by (simp add: algebra_simps)
  have e2: "a - (C + ldC * i) = ?x - i * ldC" by (simp add: algebra_simps)
  have L: "(0 \<le> a - (C + ldC * i + i) \<and> a - (C + ldC * i + i) < n - i)
      \<longleftrightarrow> (?x div ldC = i \<and> i \<le> ?x mod ldC \<and> ?x mod ldC < n)"
    unfolding e1 using seg_decode [of n ldC i ?x i] assms(1-3) by auto
  have U: "(0 \<le> a - (C + ldC * i) \<and> a - (C + ldC * i) < i + 1)
      \<longleftrightarrow> (?x div ldC = i \<and> 0 \<le> ?x mod ldC \<and> ?x mod ldC < i + 1)"
    unfolding e2 using seg_decode [of "i + 1" ldC 0 ?x i] assms(1-3) by auto
  have V: "?x div ldC = i \<Longrightarrow> a - (C + ldC * i) = ?x mod ldC"
    unfolding e2 by (rule seg_decode_val)
  have V': "?x div ldC = i \<Longrightarrow> i + (a - (C + ldC * i + i)) = ?x mod ldC"
    using V by simp
  show "Cmem (rec2_step uplo transA transB n k alpha Am A ldA Bm B ldB beta C ldC i s) a =
    (if ?x div ldC = i \<and> in_tri uplo n (?x mod ldC) (?x div ldC)
          then gemm_entry transA transB k alpha Am A ldA Bm B ldB beta (?x mod ldC) (?x div ldC) (Cmem s a)
          else Cmem s a)"
    unfolding rec2_step_Cmem_raw [OF assms(1,2,4)] L U
    using assms(1-3) V V' by (auto simp: in_tri_def)
qed

lemma RELAPACK_dgemmt_rec2_Cmem:
  assumes "n \<le> ldC" "index_range transA transB n ldA ldB ldC"
  shows "Cmem (RELAPACK_dgemmt_rec2 uplo transA transB n k alpha Am A ldA Bm B ldB beta C ldC s) =
    block_update (in_tri uplo n) (gemm_entry transA transB k alpha Am A ldA Bm B ldB beta) C ldC (Cmem s)"
proof -
  let ?sel = "\<lambda>a. (a - C) div ldC"
  let ?P = "\<lambda>a. in_tri uplo n ((a - C) mod ldC) ((a - C) div ldC)"
  let ?v = "\<lambda>a. gemm_entry transA transB k alpha Am A ldA Bm B ldB beta ((a - C) mod ldC) ((a - C) div ldC)"
  have "Cmem (RELAPACK_dgemmt_rec2 uplo transA transB n k alpha Am A ldA Bm B ldB beta C ldC s) =
      fold (\<lambda>j h a. if ?sel a = j \<and> ?P a then ?v a (h a) else h a) [0..n - 1] (Cmem s)"
    unfolding RELAPACK_dgemmt_rec2_def
    by (rule Cmem_fold) (simp add: rec2_step_Cmem assms)
  also have "\<dots> = (\<lambda>a. if ?sel a \<in> set [0..n - 1] \<and> ?P a then ?v a (Cmem s a) else Cmem s a)"
    by (rule fold_region_updates) simp
  also have "\<dots> = block_update (in_tri uplo n) (gemm_entry transA transB k alpha Am A ldA Bm B ldB beta) C ldC (Cmem s)"
    by (auto simp: block_update_def fun_eq_iff Let_def in_tri_def)
  finally show ?thesis .
qed

lemma rec2_step_calls:
  assumes "0 \<le> i" "i < n" "index_range transA transB n ldA ldB ldC"
  shows "calls (rec2_step uplo transA transB n k alpha Am A ldA Bm B ldB beta C ldC i s) =
     calls s @ [spec_rec2_call uplo transA transB n k alpha A ldA B ldB beta C ldC i]"
  by (simp add: rec2_step_in_range [OF assms] spec_rec2_call_def Let_def dgemv_def)

lemma RELAPACK_dgemmt_rec2_calls:
  assumes "index_range transA transB n ldA ldB ldC"
  shows "calls (RELAPACK_dgemmt_rec2 uplo transA transB n k alpha Am A ldA Bm B ldB beta C ldC s) =
     calls s @ map (spec_rec2_call uplo transA transB n k alpha A ldA B ldB beta C ldC) [0..n - 1]"
  unfolding RELAPACK_dgemmt_rec2_def
  by (rule calls_fold) (simp add: rec2_step_calls assms)

lemma spec_rec2_call_writes:
  "call_writes (spec_rec2_call uplo transA transB n k alpha A ldA B ldB beta C ldC i) =
     (if uplo = CHR ''L'' then map (\<lambda>r. C + ldC * i + i + r) [0..n - i - 1]
      else map (\<lambda>r. C + ldC * i + r) [0..i])"
  by (simp add: spec_rec2_call_def dgemv_writes_def)

lemma spec_rec2_call_writes_set:
  assumes "0 \<le> i" "i < n"
  shows "set (call_writes (spec_rec2_call uplo transA transB n k alpha A ldA B ldB beta C ldC i)) =
     {C + r + i * ldC | r. in_tri uplo n r i}"
proof (cases "uplo = CHR ''L''")
  case True
  have "set (map (\<lambda>r. C + ldC * i + i + r) [0..n - i - 1]) = {C + r + i * ldC | r. i \<le> r \<and> r < n}"
  proof (rule set_eqI)
    fix a
    show "a \<in> set (map (\<lambda>r. C + ldC * i + i + r) [0..n - i - 1]) \<longleftrightarrow> a \<in> {C + r + i * ldC | r. i \<le> r \<and> r < n}"
    proof
      assume "a \<in> set (map (\<lambda>r. C + ldC * i + i + r) [0..n - i - 1])"
      then have "a \<in> (\<lambda>r. C + ldC * i + i + r) ` {0..n - i - 1}" by (simp only: set_map set_upto)
      then obtain r where "a = C + ldC * i + i + r" "r \<in> {0..n - i - 1}" by blast
      then have "a = C + ldC * i + i + r" "0 \<le> r" "r < n - i" by auto
      then have "a = C + (i + r) + i * ldC \<and> i \<le> i + r \<and> i + r < n" by (simp add: algebra_simps)
      then show "a \<in> {C + r + i * ldC | r. i \<le> r \<and> r < n}" by blast
    next
      assume "a \<in> {C + r + i * ldC | r. i \<le> r \<and> r < n}"
      then obtain r where "a = C + r + i * ldC" "i \<le> r" "r < n" by blast
      then have "a = C + ldC * i + i + (r - i)" "r - i \<in> {0..n - i - 1}" by (simp_all add: algebra_simps)
      then have "a \<in> (\<lambda>r. C + ldC * i + i + r) ` {0..n - i - 1}" by blast
      then show "a \<in> set (map (\<lambda>r. C + ldC * i + i + r) [0..n - i - 1])" by (simp only: set_map set_upto)
    qed
  qed
  moreover have "\<And>r. in_tri uplo n r i \<longleftrightarrow> i \<le> r \<and> r < n"
    using True assms by (auto simp: in_tri_def)
  ultimately show ?thesis using True by (simp add: spec_rec2_call_writes)
next
  case False
  have "map (\<lambda>r. C + ldC * i + r) [0..i] = map (\<lambda>r. C + r + i * ldC) [0..i]"
    by (simp add: algebra_simps)
  then have "set (map (\<lambda>r. C + ldC * i + r) [0..i]) = (\<lambda>r. C + r + i * ldC) ` {0..i}"
    by (simp only: set_map set_upto)
  also have "\<dots> = {C + r + i * ldC | r. 0 \<le> r \<and> r \<le> i}"
    unfolding image_def by auto
  finally have "set (map (\<lambda>r. C + ldC * i + r) [0..i]) = {C + r + i * ldC | r. 0 \<le> r \<and> r \<le> i}" .
  moreover have "\<And>r. in_tri uplo n r i \<longleftrightarrow> 0 \<le> r \<and> r \<le> i"
    using False assms by (auto simp: in_tri_def)
  ultimately show ?thesis using False by (simp add: spec_rec2_call_writes)
qed

lemma spec_rec2_call_writes_distinct:
  "distinct (call_writes (spec_rec2_call uplo transA transB n k alpha A ldA B ldB beta C ldC i))"
  by (simp add: spec_rec2_call_writes distinct_map inj_on_def)

lemma spec_rec2_call_dense:
  "is_dense (spec_rec2_call uplo transA transB n k alpha A ldA B ldB beta C ldC i)"
  "call_scalars (spec_rec2_call uplo transA transB n k alpha A ldA B ldB beta C ldC i) = Some (alpha, beta)"
  by (simp_all add: spec_rec2_call_def)

lemma rec2_writes_distinct:
  assumes "n \<le> ldC"
  shows "distinct (concat (map call_writes (map (spec_rec2_call uplo transA transB n k alpha A ldA B ldB beta C ldC) [0..n - 1])))"
  unfolding map_map
proof (rule distinct_concat_sel [where sel = "\<lambda>a. (a - C) div ldC"])
  show "distinct [0..n - 1]" by simp
next
  fix j
  show "distinct ((call_writes \<circ> spec_rec2_call uplo transA transB n k alpha A ldA B ldB beta C ldC) j)"
    by (simp add: spec_rec2_call_writes_distinct)
next
  fix j a
  assume j: "j \<in> set [0..n - 1]"
    and a: "a \<in> set ((call_writes \<circ> spec_rec2_call uplo transA transB n k alpha A ldA B ldB beta C ldC) j)"
  have "0 \<le> j" "j < n" using j by auto
  then have "a \<in> {C + r + j * ldC | r. in_tri uplo n r j}"
    using spec_rec2_call_writes_set [of j n uplo transA transB k alpha A ldA B ldB beta C ldC] a
    by (simp only: comp_apply)
  then obtain r where "a = C + r + j * ldC" "in_tri uplo n r j" by blast
  then show "(a - C) div ldC = j" using assms by (simp add: in_tri_def)
qed

lemma rec2_writes_set:
  assumes "n \<le> ldC"
  shows "set (concat (map call_writes (map (spec_rec2_call uplo transA transB n k alpha A ldA B ldB beta C ldC) [0..n - 1])))
    = block_addrs (in_tri uplo n) C ldC"
proof -
  have "block_addrs (in_tri uplo n) C ldC = {C + i + j * ldC | i j. in_tri uplo n i j}"
    by (rule block_addrs_cells) (use assms in \<open>auto simp: in_tri_def\<close>)
  also have "\<dots> = (\<Union>j\<in>{0..n - 1}. {C + r + j * ldC | r. in_tri uplo n r j})"
  proof -
    have "\<And>i j. in_tri uplo n i j \<Longrightarrow> j \<in> {0..n - 1}" by (auto simp: in_tri_def)
    then show ?thesis by blast
  qed
  also have "\<dots> = (\<Union>j\<in>{0..n - 1}. set (call_writes (spec_rec2_call uplo transA transB n k alpha A ldA B ldB beta C ldC j)))"
    by (rule SUP_cong [OF refl, symmetric]) (rule spec_rec2_call_writes_set, auto)
  finally show ?thesis by simp
qed

section \<open>The recursive kernel in closed form\<close>

text \<open>
  The three updates of one level, each on its own quadrant, make up the update of the
  whole triangle; the quadrants are disjoint.
\<close>

lemma tri_split_lower:
  assumes "0 \<le> n1" "n1 \<le> n" "n \<le> ldC" "0 < ldC"
  shows "block_update (in_tri (CHR ''L'') (n - n1))
           (gemm_entry transA transB k alpha Am (A + (if transA = CHR ''N'' then n1 else ldA * n1)) ldA
              Bm (B + (if transB = CHR ''N'' then ldB * n1 else n1)) ldB beta) (C + ldC * n1 + n1) ldC
         (block_update (in_rect (n - n1) n1)
           (gemm_entry transA transB k alpha Am (A + (if transA = CHR ''N'' then n1 else ldA * n1)) ldA
              Bm B ldB beta) (C + n1) ldC
         (block_update (in_tri (CHR ''L'') n1) (gemm_entry transA transB k alpha Am A ldA Bm B ldB beta) C ldC h))
       = block_update (in_tri (CHR ''L'') n) (gemm_entry transA transB k alpha Am A ldA Bm B ldB beta) C ldC h"
    (is "block_update ?P3 ?v3 ?C3 ldC (block_update ?P2 ?v2 ?C2 ldC (block_update ?P1 ?v ?C1 ldC h)) = _")
proof -
  let ?Q3 = "\<lambda>i j. ?P3 (i - n1) (j - n1)"
  let ?Q2 = "\<lambda>i j. ?P2 (i - n1) (j - 0)"
  have s3: "\<And>g. block_update ?P3 ?v3 ?C3 ldC g = block_update ?Q3 ?v C ldC g"
  proof -
    fix g
    have "block_update ?P3 ?v3 ?C3 ldC g = block_update ?Q3 (\<lambda>i j. ?v3 (i - n1) (j - n1)) C ldC g"
      by (rule block_update_shift [where m = "n - n1"]) (use assms in \<open>auto simp: in_tri_def\<close>)
    also have "\<dots> = block_update ?Q3 ?v C ldC g"
      by (rule block_update_cong) (simp_all add: gemm_entry_row_shift gemm_entry_col_shift)
    finally show "block_update ?P3 ?v3 ?C3 ldC g = block_update ?Q3 ?v C ldC g" .
  qed
  have s2: "\<And>g. block_update ?P2 ?v2 ?C2 ldC g = block_update ?Q2 ?v C ldC g"
  proof -
    fix g
    have "block_update ?P2 ?v2 (C + ldC * 0 + n1) ldC g = block_update ?Q2 (\<lambda>i j. ?v2 (i - n1) (j - 0)) C ldC g"
      by (rule block_update_shift [where m = "n - n1"]) (use assms in \<open>auto simp: in_rect_def\<close>)
    also have "\<dots> = block_update ?Q2 ?v C ldC g"
      by (rule block_update_cong) (simp_all add: gemm_entry_row_shift)
    finally show "block_update ?P2 ?v2 ?C2 ldC g = block_update ?Q2 ?v C ldC g" by simp
  qed
  have "block_update ?Q3 ?v C ldC (block_update ?Q2 ?v C ldC (block_update ?P1 ?v C ldC h)) =
        block_update ?Q3 ?v C ldC (block_update (\<lambda>i j. ?Q2 i j \<or> ?P1 i j) ?v C ldC h)"
    by (subst block_update_compose) (auto simp: in_tri_def in_rect_def)
  also have "\<dots> = block_update (\<lambda>i j. ?Q3 i j \<or> (?Q2 i j \<or> ?P1 i j)) ?v C ldC h"
    by (rule block_update_compose) (auto simp: in_tri_def in_rect_def)
  also have "\<dots> = block_update (in_tri (CHR ''L'') n) ?v C ldC h"
    by (rule block_update_cong) (use assms in \<open>auto simp: in_tri_def in_rect_def\<close>)
  finally show ?thesis unfolding s3 s2 .
qed

lemma tri_split_upper:
  assumes "0 \<le> n1" "n1 \<le> n" "n \<le> ldC" "0 < ldC" "uplo \<noteq> CHR ''L''"
  shows "block_update (in_tri uplo (n - n1))
           (gemm_entry transA transB k alpha Am (A + (if transA = CHR ''N'' then n1 else ldA * n1)) ldA
              Bm (B + (if transB = CHR ''N'' then ldB * n1 else n1)) ldB beta) (C + ldC * n1 + n1) ldC
         (block_update (in_rect n1 (n - n1))
           (gemm_entry transA transB k alpha Am A ldA
              Bm (B + (if transB = CHR ''N'' then ldB * n1 else n1)) ldB beta) (C + ldC * n1) ldC
         (block_update (in_tri uplo n1) (gemm_entry transA transB k alpha Am A ldA Bm B ldB beta) C ldC h))
       = block_update (in_tri uplo n) (gemm_entry transA transB k alpha Am A ldA Bm B ldB beta) C ldC h"
    (is "block_update ?P3 ?v3 ?C3 ldC (block_update ?P2 ?v2 ?C2 ldC (block_update ?P1 ?v ?C1 ldC h)) = _")
proof -
  let ?Q3 = "\<lambda>i j. ?P3 (i - n1) (j - n1)"
  let ?Q2 = "\<lambda>i j. ?P2 (i - 0) (j - n1)"
  have s3: "\<And>g. block_update ?P3 ?v3 ?C3 ldC g = block_update ?Q3 ?v C ldC g"
  proof -
    fix g
    have "block_update ?P3 ?v3 ?C3 ldC g = block_update ?Q3 (\<lambda>i j. ?v3 (i - n1) (j - n1)) C ldC g"
      by (rule block_update_shift [where m = "n - n1"]) (use assms in \<open>auto simp: in_tri_def\<close>)
    also have "\<dots> = block_update ?Q3 ?v C ldC g"
      by (rule block_update_cong) (simp_all add: gemm_entry_row_shift gemm_entry_col_shift)
    finally show "block_update ?P3 ?v3 ?C3 ldC g = block_update ?Q3 ?v C ldC g" .
  qed
  have s2: "\<And>g. block_update ?P2 ?v2 ?C2 ldC g = block_update ?Q2 ?v C ldC g"
  proof -
    fix g
    have "block_update ?P2 ?v2 (C + ldC * n1 + 0) ldC g = block_update ?Q2 (\<lambda>i j. ?v2 (i - 0) (j - n1)) C ldC g"
      by (rule block_update_shift [where m = "n1"]) (use assms in \<open>auto simp: in_rect_def\<close>)
    also have "\<dots> = block_update ?Q2 ?v C ldC g"
      by (rule block_update_cong) (simp_all add: gemm_entry_col_shift)
    finally show "block_update ?P2 ?v2 ?C2 ldC g = block_update ?Q2 ?v C ldC g" by simp
  qed
  have "block_update ?Q3 ?v C ldC (block_update ?Q2 ?v C ldC (block_update ?P1 ?v C ldC h)) =
        block_update ?Q3 ?v C ldC (block_update (\<lambda>i j. ?Q2 i j \<or> ?P1 i j) ?v C ldC h)"
    by (subst block_update_compose) (auto simp: in_tri_def in_rect_def)
  also have "\<dots> = block_update (\<lambda>i j. ?Q3 i j \<or> (?Q2 i j \<or> ?P1 i j)) ?v C ldC h"
    by (rule block_update_compose) (use assms in \<open>auto simp: in_tri_def in_rect_def\<close>)
  also have "\<dots> = block_update (in_tri uplo n) ?v C ldC h"
    by (rule block_update_cong) (use assms in \<open>auto simp: in_tri_def in_rect_def\<close>)
  finally show ?thesis unfolding s3 s2 .
qed

lemma tri_addrs_split:
  assumes "0 \<le> n1" "n1 \<le> n" "n \<le> ldC" "0 < ldC"
  shows "block_addrs (in_tri uplo n) C ldC =
           block_addrs (in_tri uplo n1) C ldC \<union> offdiag_addrs uplo n n1 C ldC \<union>
           block_addrs (in_tri uplo (n - n1)) (C + ldC * n1 + n1) ldC"
    and "block_addrs (in_tri uplo n1) C ldC \<inter> offdiag_addrs uplo n n1 C ldC = {}"
    and "block_addrs (in_tri uplo n1) C ldC \<inter> block_addrs (in_tri uplo (n - n1)) (C + ldC * n1 + n1) ldC = {}"
    and "offdiag_addrs uplo n n1 C ldC \<inter> block_addrs (in_tri uplo (n - n1)) (C + ldC * n1 + n1) ldC = {}"
proof -
  let ?Q3 = "\<lambda>i j. in_tri uplo (n - n1) (i - n1) (j - n1)"
  let ?Q2 = "\<lambda>i j. if uplo = CHR ''L'' then in_rect (n - n1) n1 (i - n1) j else in_rect n1 (n - n1) i (j - n1)"
  have s3: "block_addrs (in_tri uplo (n - n1)) (C + ldC * n1 + n1) ldC = block_addrs ?Q3 C ldC"
    by (rule block_addrs_shift [where m = "n - n1"]) (use assms in \<open>auto simp: in_tri_def\<close>)
  have s2: "offdiag_addrs uplo n n1 C ldC = block_addrs ?Q2 C ldC"
  proof (cases "uplo = CHR ''L''")
    case True
    have "block_addrs (in_rect (n - n1) n1) (C + ldC * 0 + n1) ldC =
          block_addrs (\<lambda>i j. in_rect (n - n1) n1 (i - n1) (j - 0)) C ldC"
      by (rule block_addrs_shift [where m = "n - n1"]) (use assms in \<open>auto simp: in_rect_def\<close>)
    then show ?thesis using True by (simp add: offdiag_addrs_def)
  next
    case False
    have "block_addrs (in_rect n1 (n - n1)) (C + ldC * n1 + 0) ldC =
          block_addrs (\<lambda>i j. in_rect n1 (n - n1) (i - 0) (j - n1)) C ldC"
      by (rule block_addrs_shift [where m = "n1"]) (use assms in \<open>auto simp: in_rect_def\<close>)
    then show ?thesis using False by (simp add: offdiag_addrs_def)
  qed
  show "block_addrs (in_tri uplo n) C ldC =
           block_addrs (in_tri uplo n1) C ldC \<union> offdiag_addrs uplo n n1 C ldC \<union>
           block_addrs (in_tri uplo (n - n1)) (C + ldC * n1 + n1) ldC"
    unfolding s3 s2 block_addrs_Un
    by (rule block_addrs_cong) (use assms in \<open>auto simp: in_tri_def in_rect_def\<close>)
  show "block_addrs (in_tri uplo n1) C ldC \<inter> offdiag_addrs uplo n n1 C ldC = {}"
    unfolding s2 by (rule block_addrs_disjoint) (use assms in \<open>auto simp: in_tri_def in_rect_def\<close>)
  show "block_addrs (in_tri uplo n1) C ldC \<inter> block_addrs (in_tri uplo (n - n1)) (C + ldC * n1 + n1) ldC = {}"
    unfolding s3 by (rule block_addrs_disjoint) (use assms in \<open>auto simp: in_tri_def in_rect_def\<close>)
  show "offdiag_addrs uplo n n1 C ldC \<inter> block_addrs (in_tri uplo (n - n1)) (C + ldC * n1 + n1) ldC = {}"
    unfolding s3 s2 by (rule block_addrs_disjoint) (use assms in \<open>auto simp: in_tri_def in_rect_def\<close>)
qed

lemma RELAPACK_dgemmt_rec_base:
  "n \<le> max (CROSSOVER_DGEMMT cfg) 1 \<Longrightarrow>
   RELAPACK_dgemmt_rec cfg uplo transA transB n k alpha Am A ldA Bm B ldB beta C ldC s =
     Some (RELAPACK_dgemmt_rec2 uplo transA transB n k alpha Am A ldA Bm B ldB beta C ldC s)"
  by (subst RELAPACK_dgemmt_rec.simps) simp

lemma RELAPACK_dgemmt_rec_unfold:
  assumes "\<not> n \<le> max (CROSSOVER_DGEMMT cfg) 1"
  shows "RELAPACK_dgemmt_rec cfg uplo transA transB n k alpha Am A ldA Bm B ldB beta C ldC s =
     (case RELAPACK_dgemmt_rec cfg uplo transA transB (DREC_SPLIT cfg n) k alpha Am A ldA Bm B ldB beta C ldC s of
        None \<Rightarrow> None
      | Some s1 \<Rightarrow>
          RELAPACK_dgemmt_rec cfg uplo transA transB (n - DREC_SPLIT cfg n) k alpha
            Am (A + (if transA = CHR ''N'' then DREC_SPLIT cfg n else imul ldA (DREC_SPLIT cfg n))) ldA
            Bm (B + (if transB = CHR ''N'' then imul ldB (DREC_SPLIT cfg n) else DREC_SPLIT cfg n)) ldB
            beta (C + imul ldC (DREC_SPLIT cfg n) + DREC_SPLIT cfg n) ldC
            (if uplo = CHR ''L''
             then dgemm transA transB (n - DREC_SPLIT cfg n) (DREC_SPLIT cfg n) k alpha
                    Am (A + (if transA = CHR ''N'' then DREC_SPLIT cfg n else imul ldA (DREC_SPLIT cfg n))) ldA
                    Bm B ldB beta (C + DREC_SPLIT cfg n) ldC s1
             else dgemm transA transB (DREC_SPLIT cfg n) (n - DREC_SPLIT cfg n) k alpha
                    Am A ldA
                    Bm (B + (if transB = CHR ''N'' then imul ldB (DREC_SPLIT cfg n) else DREC_SPLIT cfg n)) ldB
                    beta (C + imul ldC (DREC_SPLIT cfg n)) ldC s1))"
  using assms by (subst RELAPACK_dgemmt_rec.simps) (simp add: Let_def split: option.split)

lemma RELAPACK_dgemmt_rec_step:
  assumes "\<not> n \<le> max (CROSSOVER_DGEMMT cfg) 1"
    and "RELAPACK_dgemmt_rec cfg uplo transA transB (DREC_SPLIT cfg n) k alpha Am A ldA Bm B ldB beta C ldC s = Some s1"
    and "s2 = (if uplo = CHR ''L''
               then dgemm transA transB (n - DREC_SPLIT cfg n) (DREC_SPLIT cfg n) k alpha
                      Am (A + (if transA = CHR ''N'' then DREC_SPLIT cfg n else ldA * DREC_SPLIT cfg n)) ldA
                      Bm B ldB beta (C + DREC_SPLIT cfg n) ldC s1
               else dgemm transA transB (DREC_SPLIT cfg n) (n - DREC_SPLIT cfg n) k alpha
                      Am A ldA
                      Bm (B + (if transB = CHR ''N'' then ldB * DREC_SPLIT cfg n else DREC_SPLIT cfg n)) ldB
                      beta (C + ldC * DREC_SPLIT cfg n) ldC s1)"
    and "index_range transA transB n ldA ldB ldC" "0 < DREC_SPLIT cfg n" "DREC_SPLIT cfg n < n"
  shows "RELAPACK_dgemmt_rec cfg uplo transA transB n k alpha Am A ldA Bm B ldB beta C ldC s =
     RELAPACK_dgemmt_rec cfg uplo transA transB (n - DREC_SPLIT cfg n) k alpha
        Am (A + (if transA = CHR ''N'' then DREC_SPLIT cfg n else ldA * DREC_SPLIT cfg n)) ldA
        Bm (B + (if transB = CHR ''N'' then ldB * DREC_SPLIT cfg n else DREC_SPLIT cfg n)) ldB
        beta (C + ldC * DREC_SPLIT cfg n + DREC_SPLIT cfg n) ldC s2"
proof -
  have "0 \<le> DREC_SPLIT cfg n" "DREC_SPLIT cfg n \<le> n - 1" using assms(5,6) by simp_all
  note e = index_range_products [OF assms(4) this]
  show ?thesis
    using assms(1-3) by (subst RELAPACK_dgemmt_rec.simps) (simp add: Let_def e)
qed

text \<open>
  For a proper splitting policy the recursion ends, and the store it leaves is the update
  of the selected triangle.  The induction is on the order \<open>n\<close>.
\<close>

lemma RELAPACK_dgemmt_rec_Cmem:
  assumes "proper_split cfg" "n \<le> ldC" "index_range transA transB n ldA ldB ldC"
  shows "\<exists>s'. RELAPACK_dgemmt_rec cfg uplo transA transB n k alpha Am A ldA Bm B ldB beta C ldC s = Some s' \<and>
     Cmem s' = block_update (in_tri uplo n) (gemm_entry transA transB k alpha Am A ldA Bm B ldB beta) C ldC (Cmem s)"
  using assms(2,3)
proof (induction "nat n" arbitrary: n A B C s rule: less_induct)
  case less
  show ?case
  proof (cases "n \<le> max (CROSSOVER_DGEMMT cfg) 1")
    case True
    then show ?thesis
      by (simp add: RELAPACK_dgemmt_rec_base RELAPACK_dgemmt_rec2_Cmem less.prems)
  next
    case False
    let ?n1 = "DREC_SPLIT cfg n"
    have "max (CROSSOVER_DGEMMT cfg) 1 < n" using False by linarith
    then have n1: "0 < ?n1" "?n1 < n" using assms(1) unfolding proper_split_def by blast+
    have rng1: "index_range transA transB ?n1 ldA ldB ldC"
      by (rule index_range_sub [OF less.prems(2)]) (use n1 in linarith)+
    have rng2: "index_range transA transB (n - ?n1) ldA ldB ldC"
      by (rule index_range_sub [OF less.prems(2)]) (use n1 in linarith)+
    let ?A_B = "A + (if transA = CHR ''N'' then ?n1 else ldA * ?n1)"
    let ?B_R = "B + (if transB = CHR ''N'' then ldB * ?n1 else ?n1)"
    obtain s1 where s1: "RELAPACK_dgemmt_rec cfg uplo transA transB ?n1 k alpha Am A ldA Bm B ldB beta C ldC s = Some s1"
      and m1: "Cmem s1 = block_update (in_tri uplo ?n1) (gemm_entry transA transB k alpha Am A ldA Bm B ldB beta) C ldC (Cmem s)"
      using less.hyps [of ?n1 A B C s] n1 less.prems(1) rng1 by auto
    define s2 where "s2 = (if uplo = CHR ''L''
               then dgemm transA transB (n - ?n1) ?n1 k alpha Am ?A_B ldA Bm B ldB beta (C + ?n1) ldC s1
               else dgemm transA transB ?n1 (n - ?n1) k alpha Am A ldA Bm ?B_R ldB beta (C + ldC * ?n1) ldC s1)"
    obtain s3 where s3: "RELAPACK_dgemmt_rec cfg uplo transA transB (n - ?n1) k alpha Am ?A_B ldA Bm ?B_R ldB beta (C + ldC * ?n1 + ?n1) ldC s2 = Some s3"
      and m3: "Cmem s3 = block_update (in_tri uplo (n - ?n1)) (gemm_entry transA transB k alpha Am ?A_B ldA Bm ?B_R ldB beta) (C + ldC * ?n1 + ?n1) ldC (Cmem s2)"
      using less.hyps [of "n - ?n1" ?A_B ?B_R "C + ldC * ?n1 + ?n1" s2] n1 less.prems(1) rng2 by auto
    have r: "RELAPACK_dgemmt_rec cfg uplo transA transB n k alpha Am A ldA Bm B ldB beta C ldC s = Some s3"
      using RELAPACK_dgemmt_rec_step [OF False s1 s2_def less.prems(2) n1] s3 by simp
    have "Cmem s3 = block_update (in_tri uplo n) (gemm_entry transA transB k alpha Am A ldA Bm B ldB beta) C ldC (Cmem s)"
    proof (cases "uplo = CHR ''L''")
      case True
      have m2: "Cmem s2 = block_update (in_rect (n - ?n1) ?n1) (gemm_entry transA transB k alpha Am ?A_B ldA Bm B ldB beta) (C + ?n1) ldC (Cmem s1)"
        unfolding s2_def if_P [OF True] by (rule dgemm_Cmem) (use n1 less.prems(1) in linarith)
      show ?thesis
        unfolding m3 m2 m1 True
        by (rule tri_split_lower) (use n1 less.prems(1) in linarith)+
    next
      case False
      have m2: "Cmem s2 = block_update (in_rect ?n1 (n - ?n1)) (gemm_entry transA transB k alpha Am A ldA Bm ?B_R ldB beta) (C + ldC * ?n1) ldC (Cmem s1)"
        unfolding s2_def if_not_P [OF False] by (rule dgemm_Cmem) (use n1 less.prems(1) in linarith)
      show ?thesis
        unfolding m3 m2 m1
        by (rule tri_split_upper [OF _ _ _ _ False]) (use n1 less.prems(1) in linarith)+
    qed
    with r show ?thesis by simp
  qed
qed

text \<open>
  The calls of the recursion are dense calls with the scalars of the caller; no address is
  written twice, and the addresses written are those of the selected triangle.
\<close>

lemma rec2_step_replay:
  assumes "0 \<le> i" "i < n" "index_range transA transB n ldA ldB ldC"
  shows "Cmem (rec2_step uplo transA transB n k alpha Am A ldA Bm B ldB beta C ldC i t) =
     apply_call Am Bm (spec_rec2_call uplo transA transB n k alpha A ldA B ldB beta C ldC i) (Cmem t)"
  unfolding rec2_step_in_range [OF assms] spec_rec2_call_def Let_def
  by (simp add: dgemv_def)

lemma replay_fold:
  assumes "\<And>i t. i \<in> set xs \<Longrightarrow> Cmem (f i t) = apply_call Am Bm (c i) (Cmem t)"
  shows "Cmem (fold f xs s) = fold (apply_call Am Bm) (map c xs) (Cmem s)"
  using assms by (induction xs arbitrary: s) simp_all

lemma RELAPACK_dgemmt_rec2_replay:
  assumes "index_range transA transB n ldA ldB ldC"
  shows "Cmem (RELAPACK_dgemmt_rec2 uplo transA transB n k alpha Am A ldA Bm B ldB beta C ldC s) =
     fold (apply_call Am Bm) (map (spec_rec2_call uplo transA transB n k alpha A ldA B ldB beta C ldC) [0..n - 1])
       (Cmem s)"
  unfolding RELAPACK_dgemmt_rec2_def
  by (rule replay_fold) (simp add: rec2_step_replay assms)

lemma RELAPACK_dgemmt_rec_calls:
  assumes "proper_split cfg" "n \<le> ldC" "index_range transA transB n ldA ldB ldC"
  shows "\<exists>s' tr. RELAPACK_dgemmt_rec cfg uplo transA transB n k alpha Am A ldA Bm B ldB beta C ldC s = Some s' \<and>
     calls s' = calls s @ tr \<and>
     Cmem s' = fold (apply_call Am Bm) tr (Cmem s) \<and>
     (\<forall>e\<in>set tr. is_dense e \<and> call_scalars e = Some (alpha, beta)) \<and>
     distinct (concat (map call_writes tr)) \<and>
     set (concat (map call_writes tr)) = block_addrs (in_tri uplo n) C ldC"
  using assms(2,3)
proof (induction "nat n" arbitrary: n A B C s rule: less_induct)
  case less
  show ?case
  proof (cases "n \<le> max (CROSSOVER_DGEMMT cfg) 1")
    case True
    let ?tr = "map (spec_rec2_call uplo transA transB n k alpha A ldA B ldB beta C ldC) [0..n - 1]"
    have "calls (RELAPACK_dgemmt_rec2 uplo transA transB n k alpha Am A ldA Bm B ldB beta C ldC s) = calls s @ ?tr"
      by (rule RELAPACK_dgemmt_rec2_calls [OF less.prems(2)])
    moreover have "Cmem (RELAPACK_dgemmt_rec2 uplo transA transB n k alpha Am A ldA Bm B ldB beta C ldC s) =
        fold (apply_call Am Bm) ?tr (Cmem s)"
      by (rule RELAPACK_dgemmt_rec2_replay [OF less.prems(2)])
    moreover have "\<forall>e\<in>set ?tr. is_dense e \<and> call_scalars e = Some (alpha, beta)"
      by (auto simp: spec_rec2_call_dense)
    moreover have "distinct (concat (map call_writes ?tr))"
      by (rule rec2_writes_distinct [OF less.prems(1)])
    moreover have "set (concat (map call_writes ?tr)) = block_addrs (in_tri uplo n) C ldC"
      by (rule rec2_writes_set [OF less.prems(1)])
    ultimately show ?thesis
      unfolding RELAPACK_dgemmt_rec_base [OF True] by blast
  next
    case False
    let ?n1 = "DREC_SPLIT cfg n"
    have "max (CROSSOVER_DGEMMT cfg) 1 < n" using False by linarith
    then have n1: "0 < ?n1" "?n1 < n" using assms(1) unfolding proper_split_def by blast+
    have rng1: "index_range transA transB ?n1 ldA ldB ldC"
      by (rule index_range_sub [OF less.prems(2)]) (use n1 in linarith)+
    have rng2: "index_range transA transB (n - ?n1) ldA ldB ldC"
      by (rule index_range_sub [OF less.prems(2)]) (use n1 in linarith)+
    let ?A_B = "A + (if transA = CHR ''N'' then ?n1 else ldA * ?n1)"
    let ?B_R = "B + (if transB = CHR ''N'' then ldB * ?n1 else ?n1)"
    let ?C_BR = "C + ldC * ?n1 + ?n1"
    obtain s1 tr1 where s1: "RELAPACK_dgemmt_rec cfg uplo transA transB ?n1 k alpha Am A ldA Bm B ldB beta C ldC s = Some s1"
      and c1: "calls s1 = calls s @ tr1"
      and m1: "Cmem s1 = fold (apply_call Am Bm) tr1 (Cmem s)"
      and d1: "\<forall>e\<in>set tr1. is_dense e \<and> call_scalars e = Some (alpha, beta)"
      and w1: "distinct (concat (map call_writes tr1))"
      and a1: "set (concat (map call_writes tr1)) = block_addrs (in_tri uplo ?n1) C ldC"
      using less.hyps [of ?n1 A B C s] n1 less.prems(1) rng1 by auto
    define s2 where "s2 = (if uplo = CHR ''L''
               then dgemm transA transB (n - ?n1) ?n1 k alpha Am ?A_B ldA Bm B ldB beta (C + ?n1) ldC s1
               else dgemm transA transB ?n1 (n - ?n1) k alpha Am A ldA Bm ?B_R ldB beta (C + ldC * ?n1) ldC s1)"
    let ?e = "offdiag_call cfg uplo transA transB n k alpha A ldA B ldB beta C ldC"
    have c2: "calls s2 = calls s1 @ [?e]"
      by (simp add: s2_def offdiag_call_def dgemm_def Let_def)
    have m2: "Cmem s2 = apply_call Am Bm ?e (Cmem s1)"
      by (simp add: s2_def offdiag_call_def Let_def dgemm_def)
    have d2: "is_dense ?e \<and> call_scalars ?e = Some (alpha, beta)"
      by (simp add: offdiag_call_def Let_def)
    have w2: "distinct (call_writes ?e)"
      using n1 less.prems(1) by (simp add: offdiag_call_def Let_def dgemm_writes_distinct)
    have a2: "set (call_writes ?e) = offdiag_addrs uplo n ?n1 C ldC"
      using n1 less.prems(1) by (simp add: offdiag_call_def offdiag_addrs_def Let_def dgemm_writes_set)
    obtain s3 tr3 where s3: "RELAPACK_dgemmt_rec cfg uplo transA transB (n - ?n1) k alpha Am ?A_B ldA Bm ?B_R ldB beta ?C_BR ldC s2 = Some s3"
      and c3: "calls s3 = calls s2 @ tr3"
      and m3: "Cmem s3 = fold (apply_call Am Bm) tr3 (Cmem s2)"
      and d3: "\<forall>e\<in>set tr3. is_dense e \<and> call_scalars e = Some (alpha, beta)"
      and w3: "distinct (concat (map call_writes tr3))"
      and a3: "set (concat (map call_writes tr3)) = block_addrs (in_tri uplo (n - ?n1)) ?C_BR ldC"
      using less.hyps [of "n - ?n1" ?A_B ?B_R ?C_BR s2] n1 less.prems(1) rng2 by auto
    have r: "RELAPACK_dgemmt_rec cfg uplo transA transB n k alpha Am A ldA Bm B ldB beta C ldC s = Some s3"
      using RELAPACK_dgemmt_rec_step [OF False s1 s2_def less.prems(2) n1] s3 by simp
    note sp = tri_addrs_split [of ?n1 n ldC uplo C]
    have b: "0 \<le> ?n1" "?n1 \<le> n" "n \<le> ldC" "0 < ldC" using n1 less.prems(1) by linarith+
    let ?tr = "tr1 @ [?e] @ tr3"
    have "calls s3 = calls s @ ?tr" using c1 c2 c3 by simp
    moreover have "Cmem s3 = fold (apply_call Am Bm) ?tr (Cmem s)"
      unfolding m3 m2 m1 by simp
    moreover have "\<forall>e\<in>set ?tr. is_dense e \<and> call_scalars e = Some (alpha, beta)"
      using d1 d2 d3 by auto
    moreover have "distinct (concat (map call_writes ?tr))"
      using w1 w2 w3 sp(2-4) [OF b] unfolding a1 [symmetric] a2 [symmetric] a3 [symmetric]
      by (simp add: Int_commute Int_Un_distrib)
    moreover have "set (concat (map call_writes ?tr)) = block_addrs (in_tri uplo n) C ldC"
      unfolding sp(1) [OF b] a1 [symmetric] a2 [symmetric] a3 [symmetric] by (simp add: Un_assoc)
    ultimately show ?thesis using r by blast
  qed
qed

section \<open>The entry point\<close>

lemma lsame_canonical [simp]:
  "lsame (CHR ''L'') (CHR ''L'')" "\<not> lsame (CHR ''L'') (CHR ''U'')"
  "lsame (CHR ''U'') (CHR ''U'')" "\<not> lsame (CHR ''U'') (CHR ''L'')"
  "lsame (CHR ''N'') (CHR ''N'')" "\<not> lsame (CHR ''N'') (CHR ''T'')"
  "lsame (CHR ''T'') (CHR ''T'')" "\<not> lsame (CHR ''T'') (CHR ''N'')"
  by (simp_all add: lsame_def upcase_def)

lemma upcase_canonical:
  "upcase (CHR ''L'') = CHR ''L''" "upcase (CHR ''U'') = CHR ''U''"
  "upcase (CHR ''N'') = CHR ''N''" "upcase (CHR ''T'') = CHR ''T''"
  by (simp_all add: upcase_def)

lemma lsame_lower_case:
  "lsame (CHR ''l'') (CHR ''L'')" "lsame (CHR ''u'') (CHR ''U'')"
  "lsame (CHR ''n'') (CHR ''N'')" "lsame (CHR ''t'') (CHR ''T'')"
  "\<not> lsame (CHR ''u'') (CHR ''L'')" "\<not> lsame (CHR ''t'') (CHR ''N'')"
  "\<not> lsame (CHR ''X'') (CHR ''L'')" "\<not> lsame (CHR ''X'') (CHR ''U'')"
  by code_simp+

lemma lsame_exclusive:
  "lsame c (CHR ''L'') \<Longrightarrow> \<not> lsame c (CHR ''U'')"
  "lsame c (CHR ''N'') \<Longrightarrow> \<not> lsame c (CHR ''T'')"
  by (auto simp: lsame_def upcase_canonical)

lemma lsame_clean_uplo:
  "lsame uplo (CHR ''L'') \<or> lsame uplo (CHR ''U'') \<Longrightarrow>
   lsame (clean_uplo uplo) (CHR ''L'') = lsame uplo (CHR ''L'') \<and>
   lsame (clean_uplo uplo) (CHR ''U'') = lsame uplo (CHR ''U'')"
  using lsame_exclusive(1) [of uplo] by (auto simp: clean_uplo_def)

lemma lsame_clean_trans:
  "lsame tr (CHR ''N'') \<or> lsame tr (CHR ''T'') \<Longrightarrow>
   lsame (clean_trans tr) (CHR ''N'') = lsame tr (CHR ''N'') \<and>
   lsame (clean_trans tr) (CHR ''T'') = lsame tr (CHR ''T'')"
  using lsame_exclusive(2) [of tr] by (auto simp: clean_trans_def)

lemma info_chain:
  "(let info = (if c1 then 1 else if c2 then 2 else if c3 then 3 else if c4 then 4 else if c5 then 5
                else if c6 then 8 else if c7 then 10 else if c8 then 13 else (0::int))
    in if info \<noteq> 0 then f info else g) =
   (case map_option snd (find fst [(c1, 1), (c2, 2), (c3, 3), (c4, 4), (c5, 5), (c6, 8), (c7, 10), (c8, 13)]) of
      Some p \<Rightarrow> f p | None \<Rightarrow> g)"
  by (simp add: Let_def)

lemma RELAPACK_dgemmt_unfold:
  assumes "\<not> HAVE_XGEMMT cfg"
  shows "RELAPACK_dgemmt cfg uplo transA transB n k alpha Am A ldA Bm B ldB beta C ldC s =
    (case spec_first_violation uplo transA transB n k ldA ldB ldC of
       Some p \<Rightarrow> Some (xerbla ''DGEMMT'' p s)
     | None \<Rightarrow> RELAPACK_dgemmt_rec cfg (clean_uplo uplo) (clean_trans transA) (clean_trans transB)
                 n k alpha Am A ldA Bm B ldB beta C ldC s)"
proof -
  let ?lower = "lsame uplo (CHR ''L'')" and ?upper = "lsame uplo (CHR ''U'')"
  let ?notransA = "lsame transA (CHR ''N'')" and ?tranA = "lsame transA (CHR ''T'')"
  let ?notransB = "lsame transB (CHR ''N'')" and ?tranB = "lsame transB (CHR ''T'')"
  have c: "(\<not> ?lower \<and> \<not> ?upper) = (\<not> (?lower \<or> ?upper))"
    "(\<not> ?tranA \<and> \<not> ?notransA) = (\<not> (?notransA \<or> ?tranA))"
    "(\<not> ?tranB \<and> \<not> ?notransB) = (\<not> (?notransB \<or> ?tranB))"
    by blast+
  have "RELAPACK_dgemmt cfg uplo transA transB n k alpha Am A ldA Bm B ldB beta C ldC s =
    (let info = (if \<not> (?lower \<or> ?upper) then 1
                    else if \<not> (?notransA \<or> ?tranA) then 2
                    else if \<not> (?notransB \<or> ?tranB) then 3
                    else if n < 0 then 4
                    else if k < 0 then 5
                    else if ldA < max 1 (if ?notransA then n else k) then 8
                    else if ldB < max 1 (if ?notransB then k else n) then 10
                    else if ldC < max 1 n then 13
                    else (0::int))
     in if info \<noteq> 0 then Some (xerbla ''DGEMMT'' info s)
        else RELAPACK_dgemmt_rec cfg (clean_uplo uplo) (clean_trans transA) (clean_trans transB)
                 n k alpha Am A ldA Bm B ldB beta C ldC s)"
    unfolding RELAPACK_dgemmt_def clean_uplo_def clean_trans_def if_not_P [OF assms] Let_def
    unfolding c ..
  then show ?thesis unfolding info_chain spec_first_violation_def .
qed

lemma valid_args_first_violation:
  "valid_args uplo transA transB n k ldA ldB ldC \<longleftrightarrow>
   spec_first_violation uplo transA transB n k ldA ldB ldC = None"
  unfolding valid_args_def spec_first_violation_def
  by (simp only: find.simps fst_conv snd_conv not_less split: if_splits) auto

lemma RELAPACK_dgemmt_valid:
  assumes "\<not> HAVE_XGEMMT cfg" "valid_args uplo transA transB n k ldA ldB ldC"
  shows "RELAPACK_dgemmt cfg uplo transA transB n k alpha Am A ldA Bm B ldB beta C ldC s =
    RELAPACK_dgemmt_rec cfg (clean_uplo uplo) (clean_trans transA) (clean_trans transB) n k alpha Am A ldA Bm B ldB beta C ldC s"
  using assms(2) unfolding RELAPACK_dgemmt_unfold [OF assms(1)] valid_args_first_violation by simp

lemma RELAPACK_dgemmt_invalid:
  assumes "\<not> HAVE_XGEMMT cfg" "spec_first_violation uplo transA transB n k ldA ldB ldC = Some p"
  shows "RELAPACK_dgemmt cfg uplo transA transB n k alpha Am A ldA Bm B ldB beta C ldC s =
    Some (xerbla ''DGEMMT'' p s)"
  using assms(2) unfolding RELAPACK_dgemmt_unfold [OF assms(1)] by simp

lemma spec_first_violation_range:
  "spec_first_violation uplo transA transB n k ldA ldB ldC = Some p \<Longrightarrow> p \<in> {1, 2, 3, 4, 5, 8, 10, 13}"
  unfolding spec_first_violation_def
  by (simp only: find.simps fst_conv snd_conv split: if_splits) auto

lemma valid_args_ldC:
  "valid_args uplo transA transB n k ldA ldB ldC \<Longrightarrow> n \<le> ldC"
  by (simp add: valid_args_def)

lemma dgemmt_entry_closed_form:
  assumes "\<not> HAVE_XGEMMT cfg" "proper_split cfg" "valid_args uplo transA transB n k ldA ldB ldC"
    and "index_range (clean_trans transA) (clean_trans transB) n ldA ldB ldC"
  shows "\<exists>s'. RELAPACK_dgemmt cfg uplo transA transB n k alpha Am A ldA Bm B ldB beta C ldC s = Some s' \<and>
     Cmem s' = block_update (in_tri (clean_uplo uplo) n)
       (gemm_entry (clean_trans transA) (clean_trans transB) k alpha Am A ldA Bm B ldB beta) C ldC (Cmem s)"
  unfolding RELAPACK_dgemmt_valid [OF assms(1,3)]
  by (rule RELAPACK_dgemmt_rec_Cmem [OF assms(2) valid_args_ldC [OF assms(3)] assms(4)])

lemma dgemmt_entry_calls:
  assumes "\<not> HAVE_XGEMMT cfg" "proper_split cfg" "valid_args uplo transA transB n k ldA ldB ldC"
    and "index_range (clean_trans transA) (clean_trans transB) n ldA ldB ldC"
  shows "\<exists>s' tr. RELAPACK_dgemmt cfg uplo transA transB n k alpha Am A ldA Bm B ldB beta C ldC s = Some s' \<and>
     calls s' = calls s @ tr \<and>
     Cmem s' = fold (apply_call Am Bm) tr (Cmem s) \<and>
     (\<forall>e\<in>set tr. is_dense e \<and> call_scalars e = Some (alpha, beta)) \<and>
     distinct (concat (map call_writes tr)) \<and>
     set (concat (map call_writes tr)) = block_addrs (in_tri (clean_uplo uplo) n) C ldC"
  unfolding RELAPACK_dgemmt_valid [OF assms(1,3)]
  by (rule RELAPACK_dgemmt_rec_calls [OF assms(2) valid_args_ldC [OF assms(3)] assms(4)])

section \<open>The concrete inputs\<close>

lemma proper_split_sample: "proper_split (sample_config\<lparr>CROSSOVER_DGEMMT := c\<rparr>)"
  unfolding proper_split_def sample_config_def sample_split_def by auto

lemma proper_split_sample0: "proper_split sample_config"
  using proper_split_sample [of 1] by (simp add: sample_config_def)

lemma sample_config_flag: "\<not> HAVE_XGEMMT (sample_config\<lparr>CROSSOVER_DGEMMT := c\<rparr>)" "\<not> HAVE_XGEMMT sample_config"
  by (simp_all add: sample_config_def)

lemma sample_valid:
  "valid_args (CHR ''l'') (CHR ''n'') (CHR ''N'') 3 2 3 2 3"
  "valid_args (CHR ''u'') (CHR ''t'') (CHR ''n'') 0 2 2 2 1"
  "\<not> valid_args (CHR ''X'') (CHR ''N'') (CHR ''N'') 3 2 3 2 3"
  by (simp_all add: valid_args_def lsame_lower_case)

lemma sample_clean:
  "clean_uplo (CHR ''l'') = CHR ''L''" "clean_trans (CHR ''n'') = CHR ''N''"
  "clean_trans (CHR ''N'') = CHR ''N''" "clean_trans (CHR ''t'') = CHR ''T''"
  "clean_uplo (CHR ''L'') = CHR ''L''" "clean_uplo (CHR ''U'') = CHR ''U''"
  by (simp_all add: clean_uplo_def clean_trans_def lsame_lower_case)

lemma sample_range:
  "index_range (clean_trans (CHR ''n'')) (clean_trans (CHR ''N'')) 3 3 2 3"
  "index_range (CHR ''N'') (CHR ''N'') 3 3 2 3"
  "index_range (CHR ''N'') (CHR ''T'') 3 3 3 3"
  by (simp_all add: index_range_def in_int_def sample_clean)

lemma sample_config_values:
  "CROSSOVER_DGEMMT sample_config = 1"
  "DREC_SPLIT sample_config 2 = 1" "DREC_SPLIT sample_config 3 = 1" "DREC_SPLIT sample_config 4 = 2"
  by (simp_all add: sample_config_def sample_split_def)

text \<open>
  Inputs with the leading dimension \<open>ldC = 2^30\<close>, for which the product
  \<open>ldC * 2\<close> is \<open>2^31\<close> and does not fit in an \<open>int\<close>: the orders 3 and 4 for the
  lower and the upper triangle, and the order 5, for which \<open>ldC * 4\<close> wraps to 0.
\<close>

lemma wide_valid:
  "valid_args (CHR ''L'') (CHR ''N'') (CHR ''N'') 3 2 3 2 1073741824"
  "valid_args (CHR ''U'') (CHR ''N'') (CHR ''N'') 4 2 4 2 1073741824"
  "valid_args (CHR ''U'') (CHR ''N'') (CHR ''N'') 5 2 5 2 1073741824"
  by (simp_all add: valid_args_def)

lemma wide3_unblocked:
  "RELAPACK_dgemmt (sample_config\<lparr>CROSSOVER_DGEMMT := 3\<rparr>) (CHR ''L'') (CHR ''N'') (CHR ''N'') 3 2 1
      sample_A 0 3 sample_B 0 2 0 0 1073741824 sample_machine =
   Some (RELAPACK_dgemmt_rec2 (CHR ''L'') (CHR ''N'') (CHR ''N'') 3 2 1
      sample_A 0 3 sample_B 0 2 0 0 1073741824 sample_machine)"
  unfolding RELAPACK_dgemmt_valid [OF sample_config_flag(1) wide_valid(1)]
  by (simp add: RELAPACK_dgemmt_rec_base sample_clean)

lemma wide3_unblocked_cell:
  "Cmem (RELAPACK_dgemmt_rec2 (CHR ''L'') (CHR ''N'') (CHR ''N'') 3 2 1
      sample_A 0 3 sample_B 0 2 0 0 1073741824 sample_machine) 2147483650 = 2147483750"
  by (simp add: RELAPACK_dgemmt_rec2_def upto_rec1 rec2_step_def Let_def imul_def c_int_def dgemv_def
      sample_machine_def)

lemma wide3_unblocked_calls:
  "calls (RELAPACK_dgemmt_rec2 (CHR ''L'') (CHR ''N'') (CHR ''N'') 3 2 1
      sample_A 0 3 sample_B 0 2 0 0 1073741824 sample_machine) =
   [Dgemv (CHR ''N'') 3 2 1 0 3 0 1 0 0 1,
    Dgemv (CHR ''N'') 2 2 1 1 3 2 1 0 1073741825 1,
    Dgemv (CHR ''N'') 1 2 1 2 3 4 1 0 (- 2147483646) 1]"
  by (simp add: RELAPACK_dgemmt_rec2_def upto_rec1 rec2_step_def Let_def imul_def c_int_def dgemv_def
      sample_machine_def)

lemma wide3_dense_cell:
  "Cmem (dgemm (CHR ''N'') (CHR ''N'') 3 3 2 1 sample_A 0 3 sample_B 0 2 0 0 1073741824 sample_machine)
     2147483650 = 105"
  by (simp add: dgemm_def upto_rec1 el_def sample_A_def sample_B_def sample_machine_def)

lemma wide3_recursive:
  "RELAPACK_dgemmt sample_config (CHR ''L'') (CHR ''N'') (CHR ''N'') 3 2 1
      sample_A 0 3 sample_B 0 2 0 0 1073741824 sample_machine =
   RELAPACK_dgemmt_rec sample_config (CHR ''L'') (CHR ''N'') (CHR ''N'') 3 2 1
      sample_A 0 3 sample_B 0 2 0 0 1073741824 sample_machine"
  unfolding RELAPACK_dgemmt_valid [OF sample_config_flag(2) wide_valid(1)]
  by (simp add: sample_clean)

lemma wide3_recursive_cell:
  "Cmem (the (RELAPACK_dgemmt_rec sample_config (CHR ''L'') (CHR ''N'') (CHR ''N'') 3 2 1
      sample_A 0 3 sample_B 0 2 0 0 1073741824 sample_machine)) 2147483650 = 105"
  by (simp add: RELAPACK_dgemmt_rec_unfold RELAPACK_dgemmt_rec_base sample_config_values
      RELAPACK_dgemmt_rec2_def upto_rec1 rec2_step_def Let_def imul_def c_int_def dgemv_def dgemm_def
      sample_machine_def sample_A_def sample_B_def)

lemma wide4_calls:
  "map_option calls (RELAPACK_dgemmt_rec sample_config (CHR ''U'') (CHR ''N'') (CHR ''N'') 4 2 1
      sample_A 0 4 sample_B 0 2 0 0 1073741824 sample_machine) =
   Some [Dgemv (CHR ''N'') 1 2 1 0 4 0 1 0 0 1,
    Dgemm (CHR ''N'') (CHR ''N'') 1 1 2 1 0 4 2 2 0 1073741824 1073741824,
    Dgemv (CHR ''N'') 1 2 1 1 4 2 1 0 1073741825 1,
    Dgemm (CHR ''N'') (CHR ''N'') 2 2 2 1 0 4 4 2 0 (- 2147483648) 1073741824,
    Dgemv (CHR ''N'') 1 2 1 2 4 4 1 0 (- 2147483646) 1,
    Dgemm (CHR ''N'') (CHR ''N'') 1 1 2 1 2 4 6 2 0 (- 1073741822) 1073741824,
    Dgemv (CHR ''N'') 1 2 1 3 4 6 1 0 (- 1073741821) 1]"
  by (simp add: RELAPACK_dgemmt_rec_unfold RELAPACK_dgemmt_rec_base sample_config_values
      RELAPACK_dgemmt_rec2_def upto_rec1 rec2_step_def Let_def imul_def c_int_def dgemv_def dgemm_def
      sample_machine_def)

lemma wide4_cell:
  "Cmem (the (RELAPACK_dgemmt_rec sample_config (CHR ''U'') (CHR ''N'') (CHR ''N'') 4 2 1
      sample_A 0 4 sample_B 0 2 0 0 1073741824 sample_machine)) 2147483648 = 2147483748"
  by (simp add: RELAPACK_dgemmt_rec_unfold RELAPACK_dgemmt_rec_base sample_config_values
      RELAPACK_dgemmt_rec2_def upto_rec1 rec2_step_def Let_def imul_def c_int_def dgemv_def dgemm_def
      sample_machine_def)

lemma wide5_unblocked:
  "RELAPACK_dgemmt (sample_config\<lparr>CROSSOVER_DGEMMT := 5\<rparr>) (CHR ''U'') (CHR ''N'') (CHR ''N'') 5 2 1
      sample_A 0 5 sample_B 0 2 0 0 1073741824 sample_machine =
   Some (RELAPACK_dgemmt_rec2 (CHR ''U'') (CHR ''N'') (CHR ''N'') 5 2 1
      sample_A 0 5 sample_B 0 2 0 0 1073741824 sample_machine)"
  unfolding RELAPACK_dgemmt_valid [OF sample_config_flag(1) wide_valid(3)]
  by (simp add: RELAPACK_dgemmt_rec_base sample_clean)

lemma wide5_calls:
  "calls (RELAPACK_dgemmt_rec2 (CHR ''U'') (CHR ''N'') (CHR ''N'') 5 2 1
      sample_A 0 5 sample_B 0 2 0 0 1073741824 sample_machine) =
   [Dgemv (CHR ''N'') 1 2 1 0 5 0 1 0 0 1,
    Dgemv (CHR ''N'') 2 2 1 0 5 2 1 0 1073741824 1,
    Dgemv (CHR ''N'') 3 2 1 0 5 4 1 0 (- 2147483648) 1,
    Dgemv (CHR ''N'') 4 2 1 0 5 6 1 0 (- 1073741824) 1,
    Dgemv (CHR ''N'') 5 2 1 0 5 8 1 0 0 1]"
  by (simp add: RELAPACK_dgemmt_rec2_def upto_rec1 rec2_step_def Let_def imul_def c_int_def dgemv_def
      sample_machine_def)

lemma wide5_cell:
  "Cmem (RELAPACK_dgemmt_rec2 (CHR ''U'') (CHR ''N'') (CHR ''N'') 5 2 1
      sample_A 0 5 sample_B 0 2 0 0 1073741824 sample_machine) 1 = 142"
  by (simp add: RELAPACK_dgemmt_rec2_def upto_rec1 rec2_step_def Let_def imul_def c_int_def dgemv_def
      sample_machine_def sample_A_def sample_B_def)

section \<open>The properties\<close>

text \<open>
  The entry point is compiled in one of two ways.  The theorems about the entry point are
  about the body that checks the arguments and calls the recursive kernel
  (\<open>HAVE_XGEMMT\<close> unset); what the other body does is the subject of C7, and of the
  counterexamples to C3 and C10.  Where a property depends on the addresses that the kernels
  form, it holds for the inputs whose index products fit in an \<open>int\<close>
  (\<^const>\<open>index_range\<close>), and a counterexample shows an input whose products do not.
\<close>







text \<open>
  \<^bold>\<open>C3.\<close>  The claim does not hold for every input: when \<open>HAVE_XGEMMT\<close> is set the
  entry point makes no check.  For \<open>n = - 1\<close> it calls the native routine with the
  arguments as given and does not call the diagnostic routine.
\<close>

theorem dgemmt_invalid_arguments_counterexample:
  "HAVE_XGEMMT native_config \<and>
   \<not> valid_args (CHR ''L'') (CHR ''N'') (CHR ''N'') (- 1) 2 3 2 3 \<and>
   spec_first_violation (CHR ''L'') (CHR ''N'') (CHR ''N'') (- 1) 2 3 2 3 = Some 4 \<and>
   RELAPACK_dgemmt native_config (CHR ''L'') (CHR ''N'') (CHR ''N'') (- 1) 2 1 sample_A 0 3 sample_B 0 2 0 0 3
     sample_machine =
     Some \<lparr>Cmem = Cmem sample_machine,
           calls = [Dgemmt (CHR ''L'') (CHR ''N'') (CHR ''N'') (- 1) 2 1 0 3 0 2 0 0 3]\<rparr>"
  by (simp add: RELAPACK_dgemmt_def native_config_def sample_config_def sample_machine_def
      valid_args_def spec_first_violation_def)

text \<open>
  \<^bold>\<open>C3, as amended.\<close>  When \<open>HAVE_XGEMMT\<close> is not set, for every input with an
  invalid argument the entry point finds the first violated constraint in the order
  triangle, transA, transB, n, k, ldA, ldB, ldC, calls the diagnostic routine exactly once,
  with the name \<open>DGEMMT\<close> and the position 1, 2, 3, 4, 5, 8, 10 or 13 of that
  parameter, and returns: the store of \<open>C\<close> is as before and no other call is made.
\<close>

theorem dgemmt_invalid_arguments:
  assumes "\<not> HAVE_XGEMMT cfg" "\<not> valid_args uplo transA transB n k ldA ldB ldC"
  shows "\<exists>p s'. spec_first_violation uplo transA transB n k ldA ldB ldC = Some p \<and>
     p \<in> {1, 2, 3, 4, 5, 8, 10, 13} \<and>
     RELAPACK_dgemmt cfg uplo transA transB n k alpha Am A ldA Bm B ldB beta C ldC s = Some s' \<and>
     Cmem s' = Cmem s \<and> calls s' = calls s @ [Xerbla ''DGEMMT'' p]"
proof -
  obtain p where p: "spec_first_violation uplo transA transB n k ldA ldB ldC = Some p"
    using assms(2) unfolding valid_args_first_violation by blast
  show ?thesis
    using p spec_first_violation_range [OF p] RELAPACK_dgemmt_invalid [OF assms(1) p]
    by (simp add: xerbla_def)
qed

theorem dgemmt_invalid_arguments_witness:
  "\<not> valid_args (CHR ''X'') (CHR ''N'') (CHR ''N'') 3 2 3 2 3 \<and>
   RELAPACK_dgemmt sample_config (CHR ''X'') (CHR ''N'') (CHR ''N'') 3 2 1 sample_A 0 3 sample_B 0 2 0 0 3
     sample_machine = Some \<lparr>Cmem = Cmem sample_machine, calls = [Xerbla ''DGEMMT'' 1]\<rparr>"
proof -
  obtain p s' where p: "spec_first_violation (CHR ''X'') (CHR ''N'') (CHR ''N'') 3 2 3 2 3 = Some p"
    and r: "RELAPACK_dgemmt sample_config (CHR ''X'') (CHR ''N'') (CHR ''N'') 3 2 1 sample_A 0 3 sample_B 0 2 0 0 3
     sample_machine = Some s'"
    and m: "Cmem s' = Cmem sample_machine"
    and c: "calls s' = calls sample_machine @ [Xerbla ''DGEMMT'' p]"
    using dgemmt_invalid_arguments [OF sample_config_flag(2) sample_valid(3),
        of 1 sample_A 0 sample_B 0 0 0 sample_machine] by blast
  have "spec_first_violation (CHR ''X'') (CHR ''N'') (CHR ''N'') 3 2 3 2 3 = Some 1"
    by (simp add: spec_first_violation_def lsame_lower_case)
  then have "p = 1" using p by simp
  then have "s' = \<lparr>Cmem = Cmem sample_machine, calls = [Xerbla ''DGEMMT'' 1]\<rparr>"
    using m c by (cases s') (simp add: sample_machine_def)
  then show ?thesis using r sample_valid(3) by simp
qed










text \<open>
  \<^bold>\<open>C7.\<close>  The claim that argument checking always precedes dispatch does not hold:
  when \<open>HAVE_XGEMMT\<close> is set, the entry point hands the arguments as they are, not
  checked and not normalised, to the native routine, here for a triangle selector
  \<open>'X'\<close>.
\<close>

theorem dgemmt_fast_path_counterexample:
  "HAVE_XGEMMT native_config \<and>
   \<not> valid_args (CHR ''X'') (CHR ''N'') (CHR ''N'') 3 2 3 2 3 \<and>
   map_option calls
     (RELAPACK_dgemmt native_config (CHR ''X'') (CHR ''N'') (CHR ''N'') 3 2 1 sample_A 0 3 sample_B 0 2 0 0 3
        sample_machine) =
     Some [Dgemmt (CHR ''X'') (CHR ''N'') (CHR ''N'') 3 2 1 0 3 0 2 0 0 3]"
  using sample_valid(3)
  by (simp add: RELAPACK_dgemmt_def native_config_def sample_config_def sample_machine_def)

text \<open>
  \<^bold>\<open>C7, as amended.\<close>  When \<open>HAVE_XGEMMT\<close> is set the entry point passes every call on
  to the native routine with the arguments as given and does nothing else.  When it is not
  set, argument checking precedes dispatch: an invalid input is diagnosed and \<open>C\<close> is not
  written, and a valid input reaches the recursive kernel with normalised selectors.
\<close>

theorem dgemmt_dispatch:
  "(HAVE_XGEMMT cfg \<longrightarrow>
      RELAPACK_dgemmt cfg uplo transA transB n k alpha Am A ldA Bm B ldB beta C ldC s =
        Some (s\<lparr>Cmem := BLAS_dgemmt cfg uplo transA transB n k alpha Am A ldA Bm B ldB beta C ldC (Cmem s),
                calls := calls s @ [Dgemmt uplo transA transB n k alpha A ldA B ldB beta C ldC]\<rparr>)) \<and>
   (\<not> HAVE_XGEMMT cfg \<and> \<not> valid_args uplo transA transB n k ldA ldB ldC \<longrightarrow>
      (\<exists>p. RELAPACK_dgemmt cfg uplo transA transB n k alpha Am A ldA Bm B ldB beta C ldC s =
        Some (s\<lparr>calls := calls s @ [Xerbla ''DGEMMT'' p]\<rparr>))) \<and>
   (\<not> HAVE_XGEMMT cfg \<and> valid_args uplo transA transB n k ldA ldB ldC \<longrightarrow>
      RELAPACK_dgemmt cfg uplo transA transB n k alpha Am A ldA Bm B ldB beta C ldC s =
        RELAPACK_dgemmt_rec cfg (clean_uplo uplo) (clean_trans transA) (clean_trans transB)
          n k alpha Am A ldA Bm B ldB beta C ldC s)"
proof (intro conjI impI)
  assume "HAVE_XGEMMT cfg"
  then show "RELAPACK_dgemmt cfg uplo transA transB n k alpha Am A ldA Bm B ldB beta C ldC s =
        Some (s\<lparr>Cmem := BLAS_dgemmt cfg uplo transA transB n k alpha Am A ldA Bm B ldB beta C ldC (Cmem s),
                calls := calls s @ [Dgemmt uplo transA transB n k alpha A ldA B ldB beta C ldC]\<rparr>)"
    unfolding RELAPACK_dgemmt_def by (simp only: if_True)
next
  assume h: "\<not> HAVE_XGEMMT cfg \<and> \<not> valid_args uplo transA transB n k ldA ldB ldC"
  then obtain p where p: "spec_first_violation uplo transA transB n k ldA ldB ldC = Some p"
    unfolding valid_args_first_violation by blast
  show "\<exists>p. RELAPACK_dgemmt cfg uplo transA transB n k alpha Am A ldA Bm B ldB beta C ldC s =
        Some (s\<lparr>calls := calls s @ [Xerbla ''DGEMMT'' p]\<rparr>)"
    using RELAPACK_dgemmt_invalid [OF conjunct1 [OF h] p] by (auto simp: xerbla_def)
next
  assume h: "\<not> HAVE_XGEMMT cfg \<and> valid_args uplo transA transB n k ldA ldB ldC"
  show "RELAPACK_dgemmt cfg uplo transA transB n k alpha Am A ldA Bm B ldB beta C ldC s =
        RELAPACK_dgemmt_rec cfg (clean_uplo uplo) (clean_trans transA) (clean_trans transB)
          n k alpha Am A ldA Bm B ldB beta C ldC s"
    by (rule RELAPACK_dgemmt_valid [OF conjunct1 [OF h] conjunct2 [OF h]])
qed

theorem dgemmt_dispatch_witness:
  "RELAPACK_dgemmt native_config (CHR ''l'') (CHR ''n'') (CHR ''N'') 3 2 1 sample_A 0 3 sample_B 0 2 0 0 3
     sample_machine =
     Some \<lparr>Cmem = Cmem sample_machine, calls = [Dgemmt (CHR ''l'') (CHR ''n'') (CHR ''N'') 3 2 1 0 3 0 2 0 0 3]\<rparr> \<and>
   map_option Cmem (RELAPACK_dgemmt sample_config (CHR ''X'') (CHR ''N'') (CHR ''N'') 3 2 1 sample_A 0 3 sample_B 0 2 0 0 3
     sample_machine) = Some (Cmem sample_machine) \<and>
   RELAPACK_dgemmt sample_config (CHR ''l'') (CHR ''n'') (CHR ''N'') 3 2 1 sample_A 0 3 sample_B 0 2 0 0 3
     sample_machine =
   RELAPACK_dgemmt_rec sample_config (CHR ''L'') (CHR ''N'') (CHR ''N'') 3 2 1 sample_A 0 3 sample_B 0 2 0 0 3
     sample_machine"
proof -
  have n: "HAVE_XGEMMT native_config" by (simp add: native_config_def)
  have 1: "RELAPACK_dgemmt native_config (CHR ''l'') (CHR ''n'') (CHR ''N'') 3 2 1 sample_A 0 3 sample_B 0 2 0 0 3
     sample_machine =
     Some \<lparr>Cmem = Cmem sample_machine, calls = [Dgemmt (CHR ''l'') (CHR ''n'') (CHR ''N'') 3 2 1 0 3 0 2 0 0 3]\<rparr>"
    using n dgemmt_dispatch [of native_config "CHR ''l''" "CHR ''n''" "CHR ''N''" 3 2 1 sample_A 0 3 sample_B 0 2 0 0 3 sample_machine]
    by (simp add: native_config_def sample_config_def sample_machine_def)
  have 2: "map_option Cmem (RELAPACK_dgemmt sample_config (CHR ''X'') (CHR ''N'') (CHR ''N'') 3 2 1 sample_A 0 3 sample_B 0 2 0 0 3
     sample_machine) = Some (Cmem sample_machine)"
    using sample_config_flag(2) sample_valid(3)
      dgemmt_dispatch [of sample_config "CHR ''X''" "CHR ''N''" "CHR ''N''" 3 2 1 sample_A 0 3 sample_B 0 2 0 0 3 sample_machine]
    by auto
  have 3: "RELAPACK_dgemmt sample_config (CHR ''l'') (CHR ''n'') (CHR ''N'') 3 2 1 sample_A 0 3 sample_B 0 2 0 0 3
     sample_machine =
   RELAPACK_dgemmt_rec sample_config (CHR ''L'') (CHR ''N'') (CHR ''N'') 3 2 1 sample_A 0 3 sample_B 0 2 0 0 3
     sample_machine"
    using sample_config_flag(2) sample_valid(1)
      dgemmt_dispatch [of sample_config "CHR ''l''" "CHR ''n''" "CHR ''N''" 3 2 1 sample_A 0 3 sample_B 0 2 0 0 3 sample_machine]
    by (simp add: sample_clean)
  show ?thesis using 1 2 3 by blast
qed




text \<open>
  \<^bold>\<open>C9.\<close>  For an otherwise valid input with \<open>n = 0\<close> the call changes nothing: the
  machine state, with the store of \<open>C\<close> and the list of calls made, is as before.
\<close>

theorem dgemmt_order_zero:
  assumes "\<not> HAVE_XGEMMT cfg" "valid_args uplo transA transB 0 k ldA ldB ldC"
  shows "RELAPACK_dgemmt cfg uplo transA transB 0 k alpha Am A ldA Bm B ldB beta C ldC s = Some s"
  unfolding RELAPACK_dgemmt_valid [OF assms]
  by (simp add: RELAPACK_dgemmt_rec_base RELAPACK_dgemmt_rec2_def)

theorem dgemmt_order_zero_witness:
  "valid_args (CHR ''u'') (CHR ''t'') (CHR ''n'') 0 2 2 2 1 \<and>
   RELAPACK_dgemmt sample_config (CHR ''u'') (CHR ''t'') (CHR ''n'') 0 2 1 sample_A 0 2 sample_B 0 2 0 0 1
     sample_machine = Some sample_machine"
  using dgemmt_order_zero [OF sample_config_flag(2) sample_valid(2), of 1 sample_A 0 sample_B 0 0 0 sample_machine]
    sample_valid(2) by simp

text \<open>
  \<^bold>\<open>C10.\<close>  The claim does not hold for every input: when \<open>HAVE_XGEMMT\<close> is set the
  entry point does not normalise.  The lower-case selectors \<open>'l'\<close>, \<open>'n'\<close>, \<open>'t'\<close>
  reach the native routine as they are, so the call is not the call with \<open>'L'\<close>,
  \<open>'N'\<close>, \<open>'T'\<close>.
\<close>

theorem dgemmt_case_insensitive_counterexample:
  "HAVE_XGEMMT native_config \<and>
   lsame (CHR ''l'') (CHR ''L'') \<and> lsame (CHR ''n'') (CHR ''N'') \<and> lsame (CHR ''t'') (CHR ''T'') \<and>
   RELAPACK_dgemmt native_config (CHR ''l'') (CHR ''n'') (CHR ''t'') 3 2 1 sample_A 0 3 sample_B 0 3 0 0 3
     sample_machine =
     Some \<lparr>Cmem = Cmem sample_machine,
           calls = [Dgemmt (CHR ''l'') (CHR ''n'') (CHR ''t'') 3 2 1 0 3 0 3 0 0 3]\<rparr> \<and>
   RELAPACK_dgemmt native_config (CHR ''L'') (CHR ''N'') (CHR ''T'') 3 2 1 sample_A 0 3 sample_B 0 3 0 0 3
     sample_machine =
     Some \<lparr>Cmem = Cmem sample_machine,
           calls = [Dgemmt (CHR ''L'') (CHR ''N'') (CHR ''T'') 3 2 1 0 3 0 3 0 0 3]\<rparr> \<and>
   RELAPACK_dgemmt native_config (CHR ''l'') (CHR ''n'') (CHR ''t'') 3 2 1 sample_A 0 3 sample_B 0 3 0 0 3
     sample_machine \<noteq>
   RELAPACK_dgemmt native_config (CHR ''L'') (CHR ''N'') (CHR ''T'') 3 2 1 sample_A 0 3 sample_B 0 3 0 0 3
     sample_machine"
  by (simp add: RELAPACK_dgemmt_def native_config_def sample_config_def sample_machine_def lsame_lower_case)

text \<open>
  \<^bold>\<open>C10, as amended.\<close>  When \<open>HAVE_XGEMMT\<close> is not set, selectors that the
  comparison accepts behave as their canonical upper-case forms: the call with the selectors
  as given equals the call with \<open>'L'\<close> or \<open>'U'\<close> and \<open>'N'\<close> or \<open>'T'\<close> in their
  place.  A selector that compares equal to \<open>'L'\<close>, \<open>'U'\<close>, \<open>'N'\<close> or \<open>'T'\<close>
  is normalised to that letter, and on a valid input the call is the call of the recursive
  kernel with the normalised selectors.  The kernels compare with the upper-case letters
  only: the unblocked kernel takes every triangle selector other than \<open>'L'\<close> for
  \<open>'U'\<close>.
\<close>

theorem dgemmt_case_insensitive:
  assumes "\<not> HAVE_XGEMMT cfg"
    and "lsame uplo (CHR ''L'') \<or> lsame uplo (CHR ''U'')"
    and "lsame transA (CHR ''N'') \<or> lsame transA (CHR ''T'')"
    and "lsame transB (CHR ''N'') \<or> lsame transB (CHR ''T'')"
  shows "RELAPACK_dgemmt cfg uplo transA transB n k alpha Am A ldA Bm B ldB beta C ldC s =
         RELAPACK_dgemmt cfg (clean_uplo uplo) (clean_trans transA) (clean_trans transB)
           n k alpha Am A ldA Bm B ldB beta C ldC s \<and>
         (valid_args uplo transA transB n k ldA ldB ldC \<longrightarrow>
            RELAPACK_dgemmt cfg uplo transA transB n k alpha Am A ldA Bm B ldB beta C ldC s =
            RELAPACK_dgemmt_rec cfg (clean_uplo uplo) (clean_trans transA) (clean_trans transB)
              n k alpha Am A ldA Bm B ldB beta C ldC s) \<and>
         (lsame uplo (CHR ''L'') \<longrightarrow> clean_uplo uplo = CHR ''L'') \<and>
         (lsame uplo (CHR ''U'') \<longrightarrow> clean_uplo uplo = CHR ''U'') \<and>
         (lsame transA (CHR ''N'') \<longrightarrow> clean_trans transA = CHR ''N'') \<and>
         (lsame transA (CHR ''T'') \<longrightarrow> clean_trans transA = CHR ''T'') \<and>
         (lsame transB (CHR ''N'') \<longrightarrow> clean_trans transB = CHR ''N'') \<and>
         (lsame transB (CHR ''T'') \<longrightarrow> clean_trans transB = CHR ''T'') \<and>
         clean_uplo uplo \<in> {CHR ''L'', CHR ''U''} \<and>
         clean_trans transA \<in> {CHR ''N'', CHR ''T''} \<and>
         clean_trans transB \<in> {CHR ''N'', CHR ''T''} \<and>
         (\<forall>u. u \<noteq> CHR ''L'' \<longrightarrow>
            RELAPACK_dgemmt_rec2 u (clean_trans transA) (clean_trans transB) n k alpha Am A ldA Bm B ldB beta C ldC s =
            RELAPACK_dgemmt_rec2 (CHR ''U'') (clean_trans transA) (clean_trans transB) n k alpha Am A ldA Bm B ldB beta C ldC s)"
proof -
  note u = lsame_clean_uplo [OF assms(2)]
  note a = lsame_clean_trans [OF assms(3)]
  note b = lsame_clean_trans [OF assms(4)]
  have i: "clean_uplo (clean_uplo uplo) = clean_uplo uplo"
    "clean_trans (clean_trans transA) = clean_trans transA"
    "clean_trans (clean_trans transB) = clean_trans transB"
    using u a b by (simp_all add: clean_uplo_def clean_trans_def)
  have "spec_first_violation (clean_uplo uplo) (clean_trans transA) (clean_trans transB) n k ldA ldB ldC =
        spec_first_violation uplo transA transB n k ldA ldB ldC"
    unfolding spec_first_violation_def using u a b by simp
  then have 1: "RELAPACK_dgemmt cfg uplo transA transB n k alpha Am A ldA Bm B ldB beta C ldC s =
         RELAPACK_dgemmt cfg (clean_uplo uplo) (clean_trans transA) (clean_trans transB)
           n k alpha Am A ldA Bm B ldB beta C ldC s"
    unfolding RELAPACK_dgemmt_unfold [OF assms(1)] i by simp
  have 2: "valid_args uplo transA transB n k ldA ldB ldC \<longrightarrow>
            RELAPACK_dgemmt cfg uplo transA transB n k alpha Am A ldA Bm B ldB beta C ldC s =
            RELAPACK_dgemmt_rec cfg (clean_uplo uplo) (clean_trans transA) (clean_trans transB)
              n k alpha Am A ldA Bm B ldB beta C ldC s"
    using RELAPACK_dgemmt_valid [OF assms(1)] by blast
  have 3: "lsame uplo (CHR ''L'') \<longrightarrow> clean_uplo uplo = CHR ''L''"
    "lsame uplo (CHR ''U'') \<longrightarrow> clean_uplo uplo = CHR ''U''"
    using lsame_exclusive(1) [of uplo] by (auto simp: clean_uplo_def)
  have 4: "lsame tr (CHR ''N'') \<longrightarrow> clean_trans tr = CHR ''N''"
    "lsame tr (CHR ''T'') \<longrightarrow> clean_trans tr = CHR ''T''" for tr
    using lsame_exclusive(2) [of tr] by (auto simp: clean_trans_def)
  have 5: "clean_uplo uplo \<in> {CHR ''L'', CHR ''U''}" "clean_trans transA \<in> {CHR ''N'', CHR ''T''}"
    "clean_trans transB \<in> {CHR ''N'', CHR ''T''}"
    by (simp_all add: clean_uplo_def clean_trans_def)
  have 6: "\<forall>u. u \<noteq> CHR ''L'' \<longrightarrow>
            RELAPACK_dgemmt_rec2 u (clean_trans transA) (clean_trans transB) n k alpha Am A ldA Bm B ldB beta C ldC s =
            RELAPACK_dgemmt_rec2 (CHR ''U'') (clean_trans transA) (clean_trans transB) n k alpha Am A ldA Bm B ldB beta C ldC s"
  proof (intro allI impI)
    fix u :: char
    assume n: "u \<noteq> CHR ''L''"
    have "rec2_step u (clean_trans transA) (clean_trans transB) n k alpha Am A ldA Bm B ldB beta C ldC =
          rec2_step (CHR ''U'') (clean_trans transA) (clean_trans transB) n k alpha Am A ldA Bm B ldB beta C ldC"
      by (intro ext) (simp add: rec2_step_def n)
    then show "RELAPACK_dgemmt_rec2 u (clean_trans transA) (clean_trans transB) n k alpha Am A ldA Bm B ldB beta C ldC s =
            RELAPACK_dgemmt_rec2 (CHR ''U'') (clean_trans transA) (clean_trans transB) n k alpha Am A ldA Bm B ldB beta C ldC s"
      unfolding RELAPACK_dgemmt_rec2_def by simp
  qed
  show ?thesis
    by (intro conjI) (fact 1, fact 2, fact 3(1), fact 3(2), fact 4(1), fact 4(2), fact 4(1), fact 4(2),
        fact 5(1), fact 5(2), fact 5(3), fact 6)
qed

theorem dgemmt_case_insensitive_witness:
  "RELAPACK_dgemmt sample_config (CHR ''l'') (CHR ''n'') (CHR ''t'') 3 2 1 sample_A 0 3 sample_B 0 3 0 0 3
     sample_machine =
   RELAPACK_dgemmt sample_config (CHR ''L'') (CHR ''N'') (CHR ''T'') 3 2 1 sample_A 0 3 sample_B 0 3 0 0 3
     sample_machine \<and>
   valid_args (CHR ''l'') (CHR ''n'') (CHR ''t'') 3 2 3 3 3 \<and>
   map_option calls
     (RELAPACK_dgemmt sample_config (CHR ''l'') (CHR ''n'') (CHR ''t'') 3 2 1 sample_A 0 3 sample_B 0 3 0 0 3
        sample_machine) =
   Some [Dgemv (CHR ''N'') 1 2 1 0 3 0 3 0 0 1,
         Dgemm (CHR ''N'') (CHR ''T'') 2 1 2 1 1 3 0 3 0 1 3,
         Dgemv (CHR ''N'') 1 2 1 1 3 1 3 0 4 1,
         Dgemm (CHR ''N'') (CHR ''T'') 1 1 2 1 2 3 1 3 0 5 3,
         Dgemv (CHR ''N'') 1 2 1 2 3 2 3 0 8 1]"
proof -
  have v: "valid_args (CHR ''l'') (CHR ''n'') (CHR ''t'') 3 2 3 3 3"
    by (simp add: valid_args_def lsame_lower_case)
  have l: "lsame (CHR ''l'') (CHR ''L'') \<or> lsame (CHR ''l'') (CHR ''U'')"
    "lsame (CHR ''n'') (CHR ''N'') \<or> lsame (CHR ''n'') (CHR ''T'')"
    "lsame (CHR ''t'') (CHR ''N'') \<or> lsame (CHR ''t'') (CHR ''T'')"
    by (simp_all add: lsame_lower_case)
  note t = dgemmt_case_insensitive [OF sample_config_flag(2) l, of 3 2 1 sample_A 0 3 sample_B 0 3 0 0 3 sample_machine]
  have 1: "RELAPACK_dgemmt sample_config (CHR ''l'') (CHR ''n'') (CHR ''t'') 3 2 1 sample_A 0 3 sample_B 0 3 0 0 3
     sample_machine =
   RELAPACK_dgemmt sample_config (CHR ''L'') (CHR ''N'') (CHR ''T'') 3 2 1 sample_A 0 3 sample_B 0 3 0 0 3
     sample_machine"
    using t by (simp add: sample_clean)
  have 2: "RELAPACK_dgemmt sample_config (CHR ''l'') (CHR ''n'') (CHR ''t'') 3 2 1 sample_A 0 3 sample_B 0 3 0 0 3
     sample_machine =
   RELAPACK_dgemmt_rec sample_config (CHR ''L'') (CHR ''N'') (CHR ''T'') 3 2 1 sample_A 0 3 sample_B 0 3 0 0 3
     sample_machine"
    using conjunct1 [OF conjunct2 [OF t]] v unfolding sample_clean by blast
  have 3: "map_option calls
     (RELAPACK_dgemmt_rec sample_config (CHR ''L'') (CHR ''N'') (CHR ''T'') 3 2 1 sample_A 0 3 sample_B 0 3 0 0 3
        sample_machine) =
   Some [Dgemv (CHR ''N'') 1 2 1 0 3 0 3 0 0 1,
         Dgemm (CHR ''N'') (CHR ''T'') 2 1 2 1 1 3 0 3 0 1 3,
         Dgemv (CHR ''N'') 1 2 1 1 3 1 3 0 4 1,
         Dgemm (CHR ''N'') (CHR ''T'') 1 1 2 1 2 3 1 3 0 5 3,
         Dgemv (CHR ''N'') 1 2 1 2 3 2 3 0 8 1]"
    by (simp add: RELAPACK_dgemmt_rec_unfold RELAPACK_dgemmt_rec_base sample_config_values
      RELAPACK_dgemmt_rec2_def upto_rec1 rec2_step_def Let_def imul_def c_int_def dgemv_def dgemm_def
      sample_machine_def)
  show ?thesis using 1 v 3 unfolding 2 by simp
qed

end
